theory Spec2Isabelle
  imports Main "HOL-Library.Monad_Syntax" "HOL-Library.Sublist"
    "HOL-Library.Word"
begin

section \<open>The profile tree of prof\_tree.c\<close>

text \<open>
  A shallow embedding of \<^verbatim>\<open>src/util/profile/prof_tree.c\<close>. Nodes live in a heap, a partial
  map from addresses to node records, because the claims are about sibling links, parent
  pointers and the magic tag. A result \<open>None\<close> always means that the call has no defined
  outcome: it dereferences a null or freed pointer, or it never returns.
\<close>

subsection \<open>Error codes and strings\<close>

text \<open>
  The values of \<^verbatim>\<open>errcode_t\<close>. The numbers come from the generated error table, which is
  not part of this file; only that they are distinct and non-zero matters, so they are
  constructors. \<open>OK\<close> is the value 0.
\<close>

datatype errcode =
    OK
  | ENOMEM
  | PROF_MAGIC_NODE
  | PROF_NO_SECTION
  | PROF_NO_RELATION
  | PROF_ADD_NOT_SECTION
  | PROF_SECTION_WITH_VALUE
  | PROF_BAD_LINK_LIST
  | PROF_BAD_GROUP_LVL
  | PROF_BAD_PARENT_PTR
  | PROF_MAGIC_ITERATOR
  | PROF_MAGIC_PROFILE
  | PROF_NO_PROFILE
  | PROF_BAD_NAMESET
  | OTHER int

text \<open>\<^verbatim>\<open>strcmp\<close>: bytewise lexicographic comparison; only the sign of the result is used.\<close>

fun strcmp :: "string \<Rightarrow> string \<Rightarrow> int" where
  "strcmp [] [] = 0"
| "strcmp [] (y # ys) = - 1"
| "strcmp (x # xs) [] = 1"
| "strcmp (x # xs) (y # ys) =
     (if x = y then strcmp xs ys
      else if (of_char x :: nat) < of_char y then - 1 else 1)"

subsection \<open>Nodes and the heap\<close>

type_synonym ptr = "nat option"

record profile_node =
  magic :: errcode
  name :: "string option"
  "value" :: "string option"
  group_level :: int
  final :: bool
  first_child :: ptr
  parent :: ptr
  "next" :: ptr
  prev :: ptr

type_synonym heap = "nat \<Rightarrow> profile_node option"

text \<open>A write through a pointer: undefined when the pointer is not live.\<close>

definition poke :: "heap \<Rightarrow> nat \<Rightarrow> (profile_node \<Rightarrow> profile_node) \<Rightarrow> heap option" where
  "poke h a f = (case h a of None \<Rightarrow> None | Some n \<Rightarrow> Some (h(a \<mapsto> f n)))"

subsection \<open>profile\_free\_node\<close>

text \<open>
  The recursion of \<^verbatim>\<open>profile_free_node\<close> and its loop over the children are one function:
  \<open>Inl node\<close> is a call on \<open>node\<close>, \<open>Inr child\<close> is the loop standing at \<open>child\<close>.
  Freeing a block removes it from the heap.
\<close>

partial_function (option) free_walk :: "heap \<Rightarrow> nat + ptr \<Rightarrow> heap option" where
  "free_walk h x =
     (case x of
        Inl node \<Rightarrow>
          (case h node of
             None \<Rightarrow> None
           | Some n \<Rightarrow>
               if magic n \<noteq> PROF_MAGIC_NODE then Some h
               else Option.bind (free_walk h (Inr (first_child n)))
                      (\<lambda>h'. case h' node of
                               None \<Rightarrow> None
                             | Some _ \<Rightarrow> Some (h'(node := None))))
      | Inr child \<Rightarrow>
          (case child of
             None \<Rightarrow> Some h
           | Some c \<Rightarrow>
               (case h c of
                  None \<Rightarrow> None
                | Some cn \<Rightarrow>
                    Option.bind (free_walk h (Inl c))
                      (\<lambda>h'. free_walk h' (Inr (next cn))))))"

definition profile_free_node :: "heap \<Rightarrow> nat \<Rightarrow> heap option" where
  "profile_free_node h node = free_walk h (Inl node)"

subsection \<open>profile\_create\_node\<close>

text \<open>
  The three calls of \<^verbatim>\<open>malloc\<close> are parameters: the block returned for the node (or
  \<open>None\<close>), and whether the copies of the name and of the value can be allocated. A block
  that \<^verbatim>\<open>malloc\<close> returns is never a live one. When the name or the value cannot be
  allocated the zeroed node is leaked: \<^verbatim>\<open>profile_free_node\<close> returns at once on its
  zero magic.
\<close>

record mallocs =
  node_mem :: ptr
  name_mem :: bool
  value_mem :: bool

definition zero_node :: profile_node where
  "zero_node = \<lparr>magic = OK, name = None, value = None, group_level = 0, final = False,
     first_child = None, parent = None, next = None, prev = None\<rparr>"

definition profile_create_node ::
  "heap \<Rightarrow> mallocs \<Rightarrow> string \<Rightarrow> string option \<Rightarrow> (errcode \<times> heap \<times> ptr) option" where
  "profile_create_node h m nm v =
     (case node_mem m of
        None \<Rightarrow> Some (ENOMEM, h, None)
      | Some new \<Rightarrow>
          if h new \<noteq> None then None
          else if \<not> name_mem m then Some (ENOMEM, h(new \<mapsto> zero_node), None)
          else if v \<noteq> None \<and> \<not> value_mem m
            then Some (ENOMEM, h(new \<mapsto> zero_node\<lparr>name := Some nm\<rparr>), None)
          else Some (OK,
                 h(new \<mapsto> zero_node\<lparr>name := Some nm, value := v, magic := PROF_MAGIC_NODE\<rparr>),
                 Some new))"

subsection \<open>profile\_verify\_node\<close>

text \<open>
  As for the free: \<open>Inl node\<close> is a call, \<open>Inr (node, p, lastp)\<close> is the loop over the
  children of \<open>node\<close> standing at \<open>p\<close> with \<open>lastp\<close> (the \<^verbatim>\<open>last\<close> of the source) the child before it.
\<close>

partial_function (option) verify_walk ::
  "heap \<Rightarrow> nat + (nat \<times> ptr \<times> ptr) \<Rightarrow> errcode option" where
  "verify_walk h x =
     (case x of
        Inl node \<Rightarrow>
          (case h node of
             None \<Rightarrow> None
           | Some n \<Rightarrow>
               if magic n \<noteq> PROF_MAGIC_NODE then Some PROF_MAGIC_NODE
               else if value n \<noteq> None \<and> first_child n \<noteq> None then Some PROF_SECTION_WITH_VALUE
               else verify_walk h (Inr (node, first_child n, None)))
      | Inr (node, p, lastp) \<Rightarrow>
          (case p of
             None \<Rightarrow> Some OK
           | Some pa \<Rightarrow>
               (case h pa of
                  None \<Rightarrow> None
                | Some pn \<Rightarrow>
                    if prev pn \<noteq> lastp then Some PROF_BAD_LINK_LIST
                    else
                      (case (case lastp of
                               None \<Rightarrow> Some False
                             | Some la \<Rightarrow> map_option (\<lambda>ln. next ln \<noteq> p) (h la)) of
                         None \<Rightarrow> None
                       | Some broken \<Rightarrow>
                           if broken then Some PROF_BAD_LINK_LIST
                           else
                             (case h node of
                                None \<Rightarrow> None
                              | Some n \<Rightarrow>
                                  if group_level n + 1 \<noteq> group_level pn then Some PROF_BAD_GROUP_LVL
                                  else if parent pn \<noteq> Some node then Some PROF_BAD_PARENT_PTR
                                  else Option.bind (verify_walk h (Inl pa))
                                         (\<lambda>retval. if retval \<noteq> OK then Some retval
                                            else verify_walk h (Inr (node, next pn, p))))))))"

definition profile_verify_node :: "heap \<Rightarrow> nat \<Rightarrow> errcode option" where
  "profile_verify_node h node = verify_walk h (Inl node)"

subsection \<open>profile\_add\_node\<close>

text \<open>The loop that finds the place of the new node: it returns \<open>(p, lastp)\<close>, the \<^verbatim>\<open>p\<close> and \<^verbatim>\<open>last\<close> of the source.\<close>

partial_function (option) add_scan ::
  "heap \<Rightarrow> string \<Rightarrow> ptr \<Rightarrow> ptr \<Rightarrow> (ptr \<times> ptr) option" where
  "add_scan h nm p lastp =
     (case p of
        None \<Rightarrow> Some (None, lastp)
      | Some pa \<Rightarrow>
          (case h pa of
             None \<Rightarrow> None
           | Some pn \<Rightarrow>
               (case name pn of
                  None \<Rightarrow> None
                | Some s \<Rightarrow>
                    if strcmp s nm > 0 then Some (p, lastp)
                    else add_scan h nm (next pn) p)))"

definition profile_add_node ::
  "heap \<Rightarrow> mallocs \<Rightarrow> nat \<Rightarrow> string \<Rightarrow> string option \<Rightarrow> (errcode \<times> heap \<times> ptr) option" where
  "profile_add_node h m section nm v =
     (case h section of
        None \<Rightarrow> None
      | Some sn \<Rightarrow>
          if magic sn \<noteq> PROF_MAGIC_NODE then Some (PROF_MAGIC_NODE, h, None)
          else if value sn \<noteq> None then Some (PROF_ADD_NOT_SECTION, h, None)
          else do {
            (p, lastp) \<leftarrow> add_scan h nm (first_child sn) None;
            (retval, h1, new) \<leftarrow> profile_create_node h m nm v;
            (case new of
               None \<Rightarrow> Some (retval, h1, None)
             | Some a \<Rightarrow> do {
                 h2 \<leftarrow> poke h1 a (\<lambda>n. n\<lparr>group_level := group_level sn + 1,
                                         parent := Some section, prev := lastp, next := p\<rparr>);
                 h3 \<leftarrow> (case p of None \<Rightarrow> Some h2
                        | Some pa \<Rightarrow> poke h2 pa (\<lambda>n. n\<lparr>prev := Some a\<rparr>));
                 h4 \<leftarrow> (case lastp of
                          Some la \<Rightarrow> poke h3 la (\<lambda>n. n\<lparr>next := Some a\<rparr>)
                        | None \<Rightarrow> poke h3 section (\<lambda>n. n\<lparr>first_child := Some a\<rparr>));
                 Some (OK, h4, Some a)
               })
          })"

subsection \<open>The final flag\<close>

definition profile_make_node_final :: "heap \<Rightarrow> nat \<Rightarrow> (errcode \<times> heap) option" where
  "profile_make_node_final h node =
     (case h node of
        None \<Rightarrow> None
      | Some n \<Rightarrow>
          if magic n \<noteq> PROF_MAGIC_NODE then Some (PROF_MAGIC_NODE, h)
          else Some (OK, h(node \<mapsto> n\<lparr>final := True\<rparr>)))"

text \<open>\<^verbatim>\<open>profile_is_node_final\<close> returns an \<^verbatim>\<open>int\<close> used as a truth value, not an error code.\<close>

definition profile_is_node_final :: "heap \<Rightarrow> nat \<Rightarrow> bool option" where
  "profile_is_node_final h node = map_option final (h node)"

subsection \<open>The scanners of one section\<close>

text \<open>
  The loops of \<^verbatim>\<open>profile_find_node_relation\<close> (\<open>rel = True\<close>: the node has a value) and of
  \<^verbatim>\<open>profile_find_node_subsection\<close> (\<open>rel = False\<close>: it has none) differ in that test
  only. With a name given they are also the search loop of \<^verbatim>\<open>profile_remove_node\<close> and
  the inner loop of the path walk of \<^verbatim>\<open>profile_node_iterator\<close>. The name is compared
  only when a name is given, as \<^verbatim>\<open>||\<close> does.
\<close>

partial_function (option) next_match ::
  "heap \<Rightarrow> string option \<Rightarrow> bool \<Rightarrow> ptr \<Rightarrow> ptr option" where
  "next_match h nm rel p =
     (case p of
        None \<Rightarrow> Some None
      | Some pa \<Rightarrow>
          (case h pa of
             None \<Rightarrow> None
           | Some pn \<Rightarrow>
               (case (case nm of
                        None \<Rightarrow> Some True
                      | Some s \<Rightarrow> map_option (\<lambda>t. strcmp t s = 0) (name pn)) of
                  None \<Rightarrow> None
                | Some same \<Rightarrow>
                    if same \<and> ((value pn \<noteq> None) = rel) then Some p
                    else next_match h nm rel (next pn))))"

text \<open>
  Both scanners return the status, the new \<^verbatim>\<open>*state\<close>, and what they wrote to the out
  parameters (\<open>None\<close> when they wrote nothing): the name and the value, or the name and
  the subsection.
\<close>

definition find_node ::
  "bool \<Rightarrow> errcode \<Rightarrow> heap \<Rightarrow> nat \<Rightarrow> string option \<Rightarrow> ptr \<Rightarrow> (errcode \<times> ptr \<times> ptr) option" where
  "find_node rel notfound h section nm state =
     (case h section of
        None \<Rightarrow> None
      | Some sn \<Rightarrow>
          if magic sn \<noteq> PROF_MAGIC_NODE then Some (PROF_MAGIC_NODE, state, None)
          else
            (case (case state of
                     None \<Rightarrow> Some (OK, first_child sn)
                   | Some sa \<Rightarrow>
                       map_option (\<lambda>n. if magic n \<noteq> PROF_MAGIC_NODE then (PROF_MAGIC_NODE, state)
                                        else (OK, state)) (h sa)) of
               None \<Rightarrow> None
             | Some (chk, p0) \<Rightarrow>
                 if chk \<noteq> OK then Some (chk, state, None)
                 else do {
                   p \<leftarrow> next_match h nm rel p0;
                   (case p of
                      None \<Rightarrow> Some (notfound, None, None)
                    | Some pa \<Rightarrow> do {
                        pn \<leftarrow> h pa;
                        q \<leftarrow> next_match h nm rel (next pn);
                        Some (OK, q, p)
                      })
                 }))"

text \<open>
  \<open>find_node\<close> returns the matched node; the two functions of the source read the out
  parameters from it.
\<close>

definition profile_find_node_relation ::
  "heap \<Rightarrow> nat \<Rightarrow> string option \<Rightarrow> ptr \<Rightarrow>
     (errcode \<times> ptr \<times> (string option \<times> string option) option) option" where
  "profile_find_node_relation h section nm state =
     map_option (\<lambda>(retval, state', p).
        (retval, state', Option.bind p (\<lambda>pa. map_option (\<lambda>pn. (name pn, value pn)) (h pa))))
       (find_node True PROF_NO_RELATION h section nm state)"

definition profile_find_node_subsection ::
  "heap \<Rightarrow> nat \<Rightarrow> string option \<Rightarrow> ptr \<Rightarrow>
     (errcode \<times> ptr \<times> (string option \<times> nat) option) option" where
  "profile_find_node_subsection h section nm state =
     map_option (\<lambda>(retval, state', p).
        (retval, state', Option.bind p (\<lambda>pa. map_option (\<lambda>pn. (name pn, pa)) (h pa))))
       (find_node False PROF_NO_SECTION h section nm state)"

subsection \<open>profile\_remove\_node\<close>

text \<open>The deleting loop, standing at \<open>p\<close>. The flag is the truth value of \<^verbatim>\<open>section_flag\<close>.\<close>

partial_function (option) remove_loop ::
  "heap \<Rightarrow> nat \<Rightarrow> string \<Rightarrow> bool \<Rightarrow> ptr \<Rightarrow> heap option" where
  "remove_loop h section nm section_flag p =
     (case p of
        None \<Rightarrow> Some h
      | Some pa \<Rightarrow>
          (case h pa of
             None \<Rightarrow> None
           | Some pn \<Rightarrow>
               (case name pn of
                  None \<Rightarrow> None
                | Some s \<Rightarrow>
                    if strcmp s nm \<noteq> 0 then Some h
                    else if (section_flag \<and> value pn \<noteq> None) \<or> (\<not> section_flag \<and> value pn = None)
                      then remove_loop h section nm section_flag (next pn)
                    else do {
                      h1 \<leftarrow> (case prev pn of
                               Some q \<Rightarrow> poke h q (\<lambda>n. n\<lparr>next := next pn\<rparr>)
                             | None \<Rightarrow> poke h section (\<lambda>n. n\<lparr>first_child := next pn\<rparr>));
                      h2 \<leftarrow> (case next pn of
                               Some q \<Rightarrow> poke h1 q (\<lambda>n. n\<lparr>prev := prev pn\<rparr>)
                             | None \<Rightarrow> Some h1);
                      h3 \<leftarrow> profile_free_node h2 pa;
                      remove_loop h3 section nm section_flag (next pn)
                    })))"

definition profile_remove_node ::
  "heap \<Rightarrow> nat \<Rightarrow> string \<Rightarrow> bool \<Rightarrow> (errcode \<times> heap) option" where
  "profile_remove_node h section nm section_flag =
     (case h section of
        None \<Rightarrow> None
      | Some sn \<Rightarrow> do {
          p \<leftarrow> next_match h (Some nm) True (first_child sn);
          (case p of
             None \<Rightarrow> Some (PROF_NO_RELATION, h)
           | Some _ \<Rightarrow> do {
               h' \<leftarrow> remove_loop h section nm section_flag p;
               Some (OK, h')
             })
        })"

subsection \<open>profile\_get\_node\_parent\<close>

definition profile_get_node_parent :: "heap \<Rightarrow> nat \<Rightarrow> (errcode \<times> ptr) option" where
  "profile_get_node_parent h section = map_option (\<lambda>n. (OK, parent n)) (h section)"

subsection \<open>Files, the profile and the iterator\<close>

text \<open>
  The fields of \<^verbatim>\<open>prf_file_t\<close> and \<^verbatim>\<open>profile_t\<close> that this file reads (their declarations
  are in the header): the root node, the serial number that changes when the file is
  reloaded, and the next file of the profile.
\<close>

record prf_file =
  root :: ptr
  upd_serial :: int
  file_next :: ptr

record profile =
  profile_magic :: errcode
  first_file :: ptr

text \<open>
  The \<^verbatim>\<open>flags\<close> word, one field for each mask the code tests:
  \<^verbatim>\<open>PROFILE_ITER_LIST_SECTION\<close>, \<^verbatim>\<open>PROFILE_ITER_SECTIONS_ONLY\<close>,
  \<^verbatim>\<open>PROFILE_ITER_RELATIONS_ONLY\<close> and \<^verbatim>\<open>PROFILE_ITER_FINAL_SEEN\<close>, which are distinct bits.
\<close>

record iter_flags =
  list_section :: bool
  sections_only :: bool
  relations_only :: bool
  final_seen :: bool

text \<open>
  \<^verbatim>\<open>names\<close> is the null-terminated array as the list of its entries before the null;
  \<^verbatim>\<open>name\<close> is a pointer to one of them or null. \<^verbatim>\<open>num\<close> and \<^verbatim>\<open>skip_num\<close> are 32-bit
  \<^verbatim>\<open>int\<close>s: \<^verbatim>\<open>iter->num++\<close> and \<^verbatim>\<open>skip_num--\<close> wrap around, and \<^verbatim>\<open>skip_num > 0\<close> reads the
  word as a signed number.
\<close>

record profile_iterator =
  iter_magic :: errcode
  iter_profile :: profile
  iter_flags :: iter_flags
  iter_names :: "string list"
  iter_name :: "string option"
  iter_file :: ptr
  iter_file_serial :: int
  iter_done_idx :: nat
  iter_node :: ptr
  iter_num :: "32 word"

record pstate =
  nodes :: heap
  files :: "nat \<Rightarrow> prf_file option"
  iters :: "nat \<Rightarrow> profile_iterator option"

text \<open>
  \<^verbatim>\<open>profile_update_file\<close> is defined in another file: it is a parameter of the iterator,
  a function from the nodes, the files and the file to update to a status and the new
  nodes and files.
\<close>

type_synonym update_file =
  "heap \<Rightarrow> (nat \<Rightarrow> prf_file option) \<Rightarrow> nat \<Rightarrow> errcode \<times> heap \<times> (nat \<Rightarrow> prf_file option)"

text \<open>
  The block that \<^verbatim>\<open>malloc\<close> returns for the iterator is a parameter. The source leaves
  \<^verbatim>\<open>name\<close> and \<^verbatim>\<open>file_serial\<close> uninitialised; both are written before they are read.
\<close>

definition profile_node_iterator_create ::
  "pstate \<Rightarrow> ptr \<Rightarrow> profile option \<Rightarrow> string list option \<Rightarrow> iter_flags \<Rightarrow>
     (errcode \<times> pstate \<times> ptr) option" where
  "profile_node_iterator_create s mem prof names flags =
     (case prof of
        None \<Rightarrow> Some (PROF_NO_PROFILE, s, None)
      | Some pr \<Rightarrow>
          if profile_magic pr \<noteq> PROF_MAGIC_PROFILE then Some (PROF_MAGIC_PROFILE, s, None)
          else
            (case names of
               None \<Rightarrow> Some (PROF_BAD_NAMESET, s, None)
             | Some ns \<Rightarrow>
                 if \<not> list_section flags \<and> ns = [] then Some (PROF_BAD_NAMESET, s, None)
                 else
                   (case mem of
                      None \<Rightarrow> Some (ENOMEM, s, None)
                    | Some i \<Rightarrow>
                        if iters s i \<noteq> None then None
                        else Some (OK,
                          s\<lparr>iters := (iters s)(i \<mapsto>
                             \<lparr>iter_magic = PROF_MAGIC_ITERATOR, iter_profile = pr,
                              iter_flags = flags, iter_names = ns, iter_name = None,
                              iter_file = first_file pr, iter_file_serial = 0,
                              iter_done_idx = (if list_section flags then 0 else 1),
                              iter_node = None, iter_num = 0\<rparr>)\<rparr>,
                          Some i))))"

text \<open>
  \<open>iter_p\<close> is \<open>None\<close> for a null \<^verbatim>\<open>iter_p\<close>, else the pointer it holds. The result is
  the new state and the new content of \<^verbatim>\<open>*iter_p\<close>.
\<close>

definition profile_node_iterator_free :: "pstate \<Rightarrow> ptr option \<Rightarrow> (pstate \<times> ptr option) option" where
  "profile_node_iterator_free s iter_p =
     (case iter_p of
        None \<Rightarrow> Some (s, iter_p)
      | Some None \<Rightarrow> Some (s, iter_p)
      | Some (Some i) \<Rightarrow>
          (case iters s i of
             None \<Rightarrow> None
           | Some it \<Rightarrow>
               if iter_magic it \<noteq> PROF_MAGIC_ITERATOR then Some (s, iter_p)
               else Some (s\<lparr>iters := (iters s)(i := None)\<rparr>, Some None)))"

text \<open>
  The walk down the names: \<open>cpp\<close> is the rest of the array from \<^verbatim>\<open>cpp\<close> on, \<open>d\<close> is
  \<^verbatim>\<open>done_idx\<close>, \<open>seen\<close> is the \<^verbatim>\<open>FINAL_SEEN\<close> bit. It returns the section (or null), the
  final \<^verbatim>\<open>cpp\<close> and the bit. \<^verbatim>\<open>cpp[d]\<close> is the terminating null when \<open>d\<close> is the length
  of the rest, and lies outside the array beyond that.
\<close>

fun walk_names ::
  "heap \<Rightarrow> nat \<Rightarrow> string list \<Rightarrow> nat \<Rightarrow> bool \<Rightarrow> (ptr \<times> string list \<times> bool) option" where
  "walk_names h d [] section seen = (if d = 0 then Some (Some section, [], seen) else None)"
| "walk_names h d (c # cpp) section seen =
     (if Suc (length cpp) < d then None
      else if Suc (length cpp) = d then Some (Some section, c # cpp, seen)
      else do {
        sn \<leftarrow> h section;
        p \<leftarrow> next_match h (Some c) False (first_child sn);
        (case p of
           None \<Rightarrow> Some (None, c # cpp, seen)
         | Some pa \<Rightarrow> do {
             pn \<leftarrow> h pa;
             walk_names h d cpp pa (seen \<or> final pn)
           })
      })"

text \<open>The search loop of the iterator over the siblings, with the nodes still to skip.\<close>

partial_function (option) iter_scan ::
  "heap \<Rightarrow> string option \<Rightarrow> iter_flags \<Rightarrow> ptr \<Rightarrow> 32 word \<Rightarrow> ptr option" where
  "iter_scan h nm flags p skip_num =
     (case p of
        None \<Rightarrow> Some None
      | Some pa \<Rightarrow>
          (case h pa of
             None \<Rightarrow> None
           | Some pn \<Rightarrow>
               (case (case nm of
                        None \<Rightarrow> Some False
                      | Some s \<Rightarrow> map_option (\<lambda>t. strcmp t s \<noteq> 0) (name pn)) of
                  None \<Rightarrow> None
                | Some differs \<Rightarrow>
                    if differs then iter_scan h nm flags (next pn) skip_num
                    else if sections_only flags \<and> value pn \<noteq> None
                      then iter_scan h nm flags (next pn) skip_num
                    else if relations_only flags \<and> value pn = None
                      then iter_scan h nm flags (next pn) skip_num
                    else if 0 < sint skip_num then iter_scan h nm flags (next pn) (skip_num - 1)
                    else Some p)))"

text \<open>
  What a call wrote to \<^verbatim>\<open>ret_node\<close>, \<^verbatim>\<open>ret_name\<close> and \<^verbatim>\<open>ret_value\<close>. The end of the
  iteration is \<open>Written None None None\<close> with status \<open>OK\<close>.
\<close>

datatype outs = Untouched | Written ptr "string option" "string option"

definition set_iter :: "pstate \<Rightarrow> nat \<Rightarrow> profile_iterator \<Rightarrow> pstate" where
  "set_iter s i it = s\<lparr>iters := (iters s)(i \<mapsto> it)\<rparr>"

text \<open>
  The code from the label \<^verbatim>\<open>get_new_file\<close> on, for the iterator at \<open>i\<close>: the
  \<^verbatim>\<open>while (iter->node == 0)\<close> loop, the search and the \<^verbatim>\<open>goto\<close>. The result is the status,
  the state, the content of \<^verbatim>\<open>*iter_p\<close> and the out parameters.
\<close>

partial_function (option) get_new_file ::
  "update_file \<Rightarrow> pstate \<Rightarrow> nat \<Rightarrow> 32 word \<Rightarrow> (errcode \<times> pstate \<times> ptr \<times> outs) option" where
  "get_new_file U s i skip_num =
     (case iters s i of
        None \<Rightarrow> None
      | Some it \<Rightarrow>
          (case iter_node it of
             None \<Rightarrow>
               if iter_file it = None \<or> final_seen (iter_flags it) then
                 (case profile_node_iterator_free s (Some (Some i)) of
                    None \<Rightarrow> None
                  | Some (s', ip) \<Rightarrow> Some (OK, s', Option.bind ip id, Written None None None))
               else
                 (case iter_file it of
                    None \<Rightarrow> None
                  | Some f \<Rightarrow>
                      (case U (nodes s) (files s) f of
                         (retval, h1, fs1) \<Rightarrow>
                           if retval \<noteq> OK then
                             (case profile_node_iterator_free (s\<lparr>nodes := h1, files := fs1\<rparr>)
                                     (Some (Some i)) of
                                None \<Rightarrow> None
                              | Some (s', ip) \<Rightarrow> Some (retval, s', Option.bind ip id, Untouched))
                           else
                             (case fs1 f of
                                None \<Rightarrow> None
                              | Some fl \<Rightarrow>
                                  (case root fl of
                                     None \<Rightarrow> None
                                   | Some r \<Rightarrow>
                                       (case walk_names h1 (iter_done_idx it) (iter_names it) r
                                               (final_seen (iter_flags it)) of
                                          None \<Rightarrow> None
                                        | Some (section, cpp, seen) \<Rightarrow>
                                            (case section of
                                               None \<Rightarrow>
                                                 get_new_file U
                                                   (set_iter (s\<lparr>nodes := h1, files := fs1\<rparr>) i
                                                      (it\<lparr>iter_file_serial := upd_serial fl,
                                                          iter_flags := (iter_flags it)\<lparr>final_seen := seen\<rparr>,
                                                          iter_file := file_next fl\<rparr>))
                                                   i 0
                                             | Some sa \<Rightarrow>
                                                 (case h1 sa of
                                                    None \<Rightarrow> None
                                                  | Some sn \<Rightarrow>
                                                      get_new_file U
                                                        (set_iter (s\<lparr>nodes := h1, files := fs1\<rparr>) i
                                                           (it\<lparr>iter_file_serial := upd_serial fl,
                                                               iter_flags := (iter_flags it)\<lparr>final_seen := seen\<rparr>,
                                                               iter_name := (case cpp of [] \<Rightarrow> None | c # _ \<Rightarrow> Some c),
                                                               iter_node := first_child sn\<rparr>))
                                                        i skip_num)))))))
           | Some _ \<Rightarrow>
               (case iter_scan (nodes s) (iter_name it) (iter_flags it) (iter_node it) skip_num of
                  None \<Rightarrow> None
                | Some p \<Rightarrow>
                    (case p of
                       None \<Rightarrow>
                         (case Option.bind (iter_file it) (files s) of
                            None \<Rightarrow> None
                          | Some fl \<Rightarrow>
                              get_new_file U
                                (set_iter s i (it\<lparr>iter_num := iter_num it + 1,
                                                  iter_file := file_next fl, iter_node := None\<rparr>))
                                i 0)
                     | Some pa \<Rightarrow>
                         (case nodes s pa of
                            None \<Rightarrow> None
                          | Some pn \<Rightarrow>
                              (case (if next pn = None
                                     then map_option file_next (Option.bind (iter_file it) (files s))
                                     else Some (iter_file it)) of
                                 None \<Rightarrow> None
                               | Some f' \<Rightarrow>
                                   Some (OK,
                                     set_iter s i (it\<lparr>iter_num := iter_num it + 1,
                                                      iter_node := next pn, iter_file := f'\<rparr>),
                                     Some i, Written p (name pn) (value pn))))))))"

text \<open>
  \<^verbatim>\<open>profile_node_iterator\<close>. \<open>iter_p\<close> is the content of \<^verbatim>\<open>*iter_p\<close>. When the file of
  the current node has been reloaded, \<^verbatim>\<open>skip_num\<close> starts as \<^verbatim>\<open>iter->num\<close>.
\<close>

definition profile_node_iterator ::
  "update_file \<Rightarrow> pstate \<Rightarrow> ptr \<Rightarrow> (errcode \<times> pstate \<times> ptr \<times> outs) option" where
  "profile_node_iterator U s iter_p =
     (case iter_p of
        None \<Rightarrow> Some (PROF_MAGIC_ITERATOR, s, iter_p, Untouched)
      | Some i \<Rightarrow>
          (case iters s i of
             None \<Rightarrow> None
           | Some it \<Rightarrow>
               if iter_magic it \<noteq> PROF_MAGIC_ITERATOR
                 then Some (PROF_MAGIC_ITERATOR, s, iter_p, Untouched)
               else
                 (case iter_node it of
                    None \<Rightarrow> get_new_file U s i 0
                  | Some _ \<Rightarrow>
                      (case Option.bind (iter_file it) (files s) of
                         None \<Rightarrow> None
                       | Some fl \<Rightarrow>
                           if upd_serial fl \<noteq> iter_file_serial it then
                             get_new_file U
                               (set_iter s i (it\<lparr>iter_flags := (iter_flags it)\<lparr>final_seen := False\<rparr>,
                                                iter_node := None\<rparr>))
                               i (iter_num it)
                           else get_new_file U s i 0))))"

text \<open>The equations of the loops, for evaluation.\<close>

declare free_walk.simps [code] verify_walk.simps [code] add_scan.simps [code]
  next_match.simps [code] remove_loop.simps [code] iter_scan.simps [code]
  get_new_file.simps [code]

section \<open>The tree a heap represents\<close>

text \<open>
  The claims about the tree are stated against the tree of nodes that a heap holds: a
  node with its address, name, value, final flag and children in sibling order.
\<close>

datatype tree = Tree (t_addr: nat) (t_name: string) (t_value: "string option") (t_final: bool)
  (t_kids: "tree list")

text \<open>The address of the first tree of a list, or \<open>e\<close>; the address of the last, or \<open>e\<close>.\<close>

fun first_or :: "tree list \<Rightarrow> ptr \<Rightarrow> ptr" where
  "first_or [] e = e"
| "first_or (k # ks) e = Some (t_addr k)"

fun last_or :: "tree list \<Rightarrow> ptr \<Rightarrow> ptr" where
  "last_or [] e = e"
| "last_or (k # ks) e = last_or ks (Some (t_addr k))"

text \<open>
  \<open>is_node h par lvl prv nxt t\<close>: the heap holds \<open>t\<close> as a live node with parent \<open>par\<close>,
  group level \<open>lvl\<close> and sibling links \<open>prv\<close> and \<open>nxt\<close>, and its children below it.
  \<open>is_sibs h pa lvl prv ks e\<close>: the heap holds \<open>ks\<close> as a run of siblings under \<open>pa\<close>,
  the first with \<^verbatim>\<open>prev\<close> \<open>prv\<close>, the last with \<^verbatim>\<open>next\<close> \<open>e\<close>. These are the four invariants
  that \<^verbatim>\<open>profile_verify_node\<close> checks: a node with a value has no children, the sibling
  links agree, a child is one level below its parent, and a child points to its parent.
\<close>

fun is_node :: "heap \<Rightarrow> ptr \<Rightarrow> int \<Rightarrow> ptr \<Rightarrow> ptr \<Rightarrow> tree \<Rightarrow> bool"
  and is_sibs :: "heap \<Rightarrow> nat \<Rightarrow> int \<Rightarrow> ptr \<Rightarrow> tree list \<Rightarrow> ptr \<Rightarrow> bool" where
  "is_node h par lvl prv nxt (Tree a nm v f ks) =
     (h a = Some \<lparr>magic = PROF_MAGIC_NODE, name = Some nm, value = v, group_level = lvl,
                  final = f, first_child = first_or ks None, parent = par, next = nxt,
                  prev = prv\<rparr>
      \<and> (v \<noteq> None \<longrightarrow> ks = [])
      \<and> is_sibs h a (lvl + 1) None ks None)"
| "is_sibs h pa lvl prv [] e = True"
| "is_sibs h pa lvl prv (k # ks) e =
     (is_node h (Some pa) lvl prv (first_or ks e) k \<and> is_sibs h pa lvl (Some (t_addr k)) ks e)"

text \<open>The nodes of a tree, and their addresses. A tree shares no node when they are distinct.\<close>

fun subtrees :: "tree \<Rightarrow> tree list" and subtrees_list :: "tree list \<Rightarrow> tree list" where
  "subtrees (Tree a nm v f ks) = Tree a nm v f ks # subtrees_list ks"
| "subtrees_list [] = []"
| "subtrees_list (k # ks) = subtrees k @ subtrees_list ks"

definition addrs :: "tree \<Rightarrow> nat list" where
  "addrs t = map t_addr (subtrees t)"

definition kaddrs :: "tree list \<Rightarrow> nat list" where
  "kaddrs ks = map t_addr (subtrees_list ks)"

text \<open>
  A root: \<^verbatim>\<open>profile_verify_node\<close> checks nothing about the parent, the level and the
  sibling links of the node it is called on, so they are read from the heap.
\<close>

definition is_tree :: "heap \<Rightarrow> tree \<Rightarrow> bool" where
  "is_tree h t =
     (case h (t_addr t) of
        None \<Rightarrow> False
      | Some n \<Rightarrow> is_node h (parent n) (group_level n) (prev n) (next n) t)"

text \<open>The sibling chain from \<open>p\<close> as the list of its addresses, and the children of a node.\<close>

partial_function (option) chain_addrs :: "heap \<Rightarrow> ptr \<Rightarrow> nat list option" where
  "chain_addrs h p =
     (case p of
        None \<Rightarrow> Some []
      | Some a \<Rightarrow>
          (case h a of
             None \<Rightarrow> None
           | Some n \<Rightarrow> Option.bind (chain_addrs h (next n)) (\<lambda>as. Some (a # as))))"

definition children :: "heap \<Rightarrow> nat \<Rightarrow> nat list option" where
  "children h node = Option.bind (h node) (\<lambda>n. chain_addrs h (first_child n))"

subsection \<open>What insert and remove do to the children of a section\<close>

text \<open>
  \<open>name_le nm k\<close>: the loop of \<^verbatim>\<open>profile_add_node\<close> goes past \<open>k\<close>, its name is not greater
  than \<open>nm\<close>. \<open>insert_kid\<close> puts the new node before the first child the loop stops at.
\<close>

definition name_le :: "string \<Rightarrow> tree \<Rightarrow> bool" where
  "name_le nm k = (\<not> strcmp (t_name k) nm > 0)"

definition insert_kid :: "nat \<Rightarrow> string \<Rightarrow> string option \<Rightarrow> tree list \<Rightarrow> tree list" where
  "insert_kid new nm v ks =
     takeWhile (name_le nm) ks @ Tree new nm v False [] # dropWhile (name_le nm) ks"

text \<open>
  The place as the specification words it: after the last child whose name equals or
  precedes \<open>nm\<close>.
\<close>

definition after_last_le :: "nat \<Rightarrow> string \<Rightarrow> string option \<Rightarrow> tree list \<Rightarrow> tree list" where
  "after_last_le new nm v ks =
     rev (dropWhile (\<lambda>k. \<not> name_le nm k) (rev ks)) @ Tree new nm v False []
       # rev (takeWhile (\<lambda>k. \<not> name_le nm k) (rev ks))"

definition name_sorted :: "tree list \<Rightarrow> bool" where
  "name_sorted ks = sorted_wrt (\<lambda>a b. strcmp (t_name a) (t_name b) \<le> 0) ks"

text \<open>\<open>matches nmo rel k\<close>: the test of the scanners, a name (if one is given) and a kind.\<close>

definition matches :: "string option \<Rightarrow> bool \<Rightarrow> tree \<Rightarrow> bool" where
  "matches nmo rel k =
     ((case nmo of None \<Rightarrow> True | Some s \<Rightarrow> t_name k = s) \<and> ((t_value k \<noteq> None) = rel))"

text \<open>
  What the deleting loop of \<^verbatim>\<open>profile_remove_node\<close> leaves of the siblings from its start:
  it stops at the first other name, and keeps the nodes of the other kind. The loop
  starts at the first relation of that name.
\<close>

fun del_run :: "string \<Rightarrow> bool \<Rightarrow> tree list \<Rightarrow> tree list" where
  "del_run nm section_flag [] = []"
| "del_run nm section_flag (k # ks) =
     (if t_name k \<noteq> nm then k # ks
      else if (t_value k \<noteq> None) = section_flag then k # del_run nm section_flag ks
      else del_run nm section_flag ks)"

definition remove_kids :: "string \<Rightarrow> bool \<Rightarrow> tree list \<Rightarrow> tree list" where
  "remove_kids nm section_flag ks =
     takeWhile (\<lambda>k. \<not> matches (Some nm) True k) ks
       @ del_run nm section_flag (dropWhile (\<lambda>k. \<not> matches (Some nm) True k) ks)"

text \<open>The tree with the children of the node at \<open>sec\<close> replaced by \<open>g\<close> of them.\<close>

fun upd_kids :: "nat \<Rightarrow> (tree list \<Rightarrow> tree list) \<Rightarrow> tree \<Rightarrow> tree"
  and upd_kids_list :: "nat \<Rightarrow> (tree list \<Rightarrow> tree list) \<Rightarrow> tree list \<Rightarrow> tree list" where
  "upd_kids sec g (Tree a nm v f ks) =
     (if a = sec then Tree a nm v f (g ks) else Tree a nm v f (upd_kids_list sec g ks))"
| "upd_kids_list sec g [] = []"
| "upd_kids_list sec g (k # ks) = upd_kids sec g k # upd_kids_list sec g ks"

subsection \<open>Sequences of inserts and removes\<close>

text \<open>
  An operation on a node of the tree. \<open>apply_op\<close> runs the function of the source on the
  heap; it is defined when the call succeeds (status 0) on a node of the tree, and then
  gives the new heap together with the tree it is claimed to hold.
\<close>

datatype op = Add nat mallocs string "string option" | Remove nat string bool

fun apply_op :: "heap \<times> tree \<Rightarrow> op \<Rightarrow> (heap \<times> tree) option" where
  "apply_op (h, t) (Add sec m nm v) =
     (if sec \<in> set (addrs t) then
        (case profile_add_node h m sec nm v of
           Some (OK, h', Some new) \<Rightarrow> Some (h', upd_kids sec (insert_kid new nm v) t)
         | _ \<Rightarrow> None)
      else None)"
| "apply_op (h, t) (Remove sec nm section_flag) =
     (if sec \<in> set (addrs t) then
        (case profile_remove_node h sec nm section_flag of
           Some (OK, h') \<Rightarrow> Some (h', upd_kids sec (remove_kids nm section_flag) t)
         | _ \<Rightarrow> None)
      else None)"

text \<open>The states after each operation of a sequence, when all of them succeed.\<close>

fun run_ops :: "heap \<times> tree \<Rightarrow> op list \<Rightarrow> (heap \<times> tree) list option" where
  "run_ops s [] = Some []"
| "run_ops s (x # xs) =
     (case apply_op s x of
        None \<Rightarrow> None
      | Some s' \<Rightarrow> map_option ((#) s') (run_ops s' xs))"

text \<open>
  The children of every section of the tree are in name order. \<^verbatim>\<open>profile_add_node\<close> is the
  only code that links a child into a section, and it keeps this order.
\<close>

definition all_sorted :: "tree \<Rightarrow> bool" where
  "all_sorted t = (\<forall>s \<in> set (subtrees t). name_sorted (t_kids s))"

section \<open>Observations and concrete trees\<close>

text \<open>The status of an insert or a remove, and the children of the section after it.\<close>

definition add_children ::
  "heap \<Rightarrow> mallocs \<Rightarrow> nat \<Rightarrow> string \<Rightarrow> string option \<Rightarrow> (errcode \<times> nat list option) option" where
  "add_children h m section nm v =
     (case profile_add_node h m section nm v of
        None \<Rightarrow> None
      | Some (retval, h', new) \<Rightarrow> Some (retval, children h' section))"

definition remove_children ::
  "heap \<Rightarrow> nat \<Rightarrow> string \<Rightarrow> bool \<Rightarrow> (errcode \<times> nat list option) option" where
  "remove_children h section nm section_flag =
     (case profile_remove_node h section nm section_flag of
        None \<Rightarrow> None
      | Some (retval, h') \<Rightarrow> Some (retval, children h' section))"

text \<open>\<^verbatim>\<open>malloc\<close> succeeding with the block at \<open>a\<close>.\<close>

definition mem :: "nat \<Rightarrow> mallocs" where
  "mem a = \<lparr>node_mem = Some a, name_mem = True, value_mem = True\<rparr>"

text \<open>A live node at level 0 with no parent and no siblings: a section, or a relation.\<close>

definition lone :: "string \<Rightarrow> string option \<Rightarrow> profile_node" where
  "lone nm v = \<lparr>magic = PROF_MAGIC_NODE, name = Some nm, value = v, group_level = 0,
     final = False, first_child = None, parent = None, next = None, prev = None\<rparr>"

text \<open>A child of the node at 0, at level 1.\<close>

definition kid :: "string \<Rightarrow> string option \<Rightarrow> ptr \<Rightarrow> ptr \<Rightarrow> profile_node" where
  "kid nm v prv nxt = \<lparr>magic = PROF_MAGIC_NODE, name = Some nm, value = v, group_level = 1,
     final = False, first_child = None, parent = Some 0, next = nxt, prev = prv\<rparr>"

text \<open>An empty root section at address 0.\<close>

definition h_root :: heap where
  "h_root = Map.empty(0 \<mapsto> lone ''root'' None)"

definition t_root :: tree where
  "t_root = Tree 0 ''root'' None False []"

text \<open>A section at 0 whose children are the sections \<open>a\<close> (at 1) and \<open>c\<close> (at 2), in this order.\<close>

definition h_ac :: heap where
  "h_ac = Map.empty(0 \<mapsto> (lone ''root'' None)\<lparr>first_child := Some 1\<rparr>,
                    1 \<mapsto> kid ''a'' None None (Some 2),
                    2 \<mapsto> kid ''c'' None (Some 1) None)"

definition t_ac :: tree where
  "t_ac = Tree 0 ''root'' None False [Tree 1 ''a'' None False [], Tree 2 ''c'' None False []]"

text \<open>A section at 0 with the subsection \<open>n\<close> (at 1) before the relation \<open>n = v\<close> (at 2).\<close>

definition h_sec_rel :: heap where
  "h_sec_rel = Map.empty(0 \<mapsto> (lone ''root'' None)\<lparr>first_child := Some 1\<rparr>,
                    1 \<mapsto> kid ''n'' None None (Some 2),
                    2 \<mapsto> kid ''n'' (Some ''v'') (Some 1) None)"

text \<open>A section at 0 with the subsection \<open>n\<close> (at 1) only, and one with the relation only.\<close>

definition h_sec :: heap where
  "h_sec = Map.empty(0 \<mapsto> (lone ''root'' None)\<lparr>first_child := Some 1\<rparr>,
                     1 \<mapsto> kid ''n'' None None None)"

definition h_rel :: heap where
  "h_rel = Map.empty(0 \<mapsto> (lone ''root'' None)\<lparr>first_child := Some 1\<rparr>,
                     1 \<mapsto> kid ''n'' (Some ''v'') None None)"

text \<open>A node at 0 whose magic is 0, with a parent pointer and the final flag set.\<close>

definition h_dead :: heap where
  "h_dead = Map.empty(0 \<mapsto> (lone ''x'' None)\<lparr>magic := OK, parent := Some 7, final := True\<rparr>)"

text \<open>Inserting a list of (block, name, value) under one section, with every \<^verbatim>\<open>malloc\<close> succeeding.\<close>

fun add_vals :: "heap \<Rightarrow> nat \<Rightarrow> (nat \<times> string \<times> string option) list \<Rightarrow> heap option" where
  "add_vals h section [] = Some h"
| "add_vals h section ((a, nm, v) # xs) =
     (case profile_add_node h (mem a) section nm v of
        Some (OK, h', _) \<Rightarrow> add_vals h' section xs
      | _ \<Rightarrow> None)"

text \<open>
  Successive calls of \<^verbatim>\<open>profile_find_node_relation\<close>, each with the cursor the call before
  left: the status, the cursor and the out parameters after each call.
\<close>

fun rel_calls ::
  "nat \<Rightarrow> heap \<Rightarrow> nat \<Rightarrow> string option \<Rightarrow> ptr \<Rightarrow>
     (errcode \<times> ptr \<times> (string option \<times> string option) option) list option" where
  "rel_calls 0 h section nm state = Some []"
| "rel_calls (Suc k) h section nm state =
     (case profile_find_node_relation h section nm state of
        None \<Rightarrow> None
      | Some (retval, state', out) \<Rightarrow>
          map_option ((#) (retval, state', out)) (rel_calls k h section nm state'))"

text \<open>
  A section with the relations \<open>x = 1\<close>, \<open>x = 2\<close>, \<open>x = 3\<close> among other children: in
  sibling order \<open>a = 0\<close>, \<open>x = 1\<close>, a subsection \<open>x\<close>, \<open>x = 2\<close>, \<open>x = 3\<close>, a subsection \<open>z\<close>.
\<close>

definition h_xs :: "heap option" where
  "h_xs = add_vals h_root 0 [(1, ''x'', Some ''1''), (2, ''a'', Some ''0''), (3, ''x'', None),
                            (4, ''x'', Some ''2''), (5, ''z'', None), (6, ''x'', Some ''3'')]"

definition xs_calls ::
  "nat \<Rightarrow> (errcode \<times> ptr \<times> (string option \<times> string option) option) list option" where
  "xs_calls k = Option.bind h_xs (\<lambda>h. rel_calls k h 0 (Some ''x'') None)"

text \<open>The subsection \<open>n\<close> inserted before the relation \<open>n = v\<close>, then the subsections \<open>n\<close> removed.\<close>

definition remove_section_after_relation :: "(errcode \<times> nat list option) option" where
  "remove_section_after_relation =
     Option.bind (add_vals h_root 0 [(1, ''n'', None), (2, ''n'', Some ''v'')])
       (\<lambda>h. remove_children h 0 ''n'' True)"

text \<open>A section at 0 with the relation \<open>x = 1\<close> (at 1), a subsection \<open>x\<close> (at 2) and \<open>x = 2\<close> (at 3).\<close>

definition h_x :: heap where
  "h_x = Map.empty(0 \<mapsto> (lone ''root'' None)\<lparr>first_child := Some 1\<rparr>,
                   1 \<mapsto> kid ''x'' (Some ''1'') None (Some 2),
                   2 \<mapsto> kid ''x'' None (Some 1) (Some 3),
                   3 \<mapsto> kid ''x'' (Some ''2'') (Some 2) None)"

definition t_x :: tree where
  "t_x = Tree 0 ''root'' None False
           [Tree 1 ''x'' (Some ''1'') False [], Tree 2 ''x'' None False [],
            Tree 3 ''x'' (Some ''2'') False []]"

section \<open>Running the iterator\<close>

text \<open>A \<^verbatim>\<open>profile_update_file\<close> that succeeds and finds the file unchanged.\<close>

definition no_reload :: update_file where
  "no_reload h fs f = (OK, h, fs)"

text \<open>
  \<open>n\<close> successive calls of \<^verbatim>\<open>profile_node_iterator\<close> on one handle: the status and the out
  parameters of each call, and the state and the handle after the last.
\<close>

fun iterate ::
  "nat \<Rightarrow> update_file \<Rightarrow> pstate \<Rightarrow> ptr \<Rightarrow> ((errcode \<times> outs) list \<times> pstate \<times> ptr) option" where
  "iterate 0 U s ip = Some ([], s, ip)"
| "iterate (Suc n) U s ip =
     (case profile_node_iterator U s ip of
        None \<Rightarrow> None
      | Some (retval, s', ip', out) \<Rightarrow>
          (case iterate n U s' ip' of
             None \<Rightarrow> None
           | Some (xs, s'', ip'') \<Rightarrow> Some ((retval, out) # xs, s'', ip'')))"

text \<open>The file at \<open>f\<close> is reloaded with the same content: only its serial number changes.\<close>

definition reload :: "pstate \<Rightarrow> nat \<Rightarrow> pstate" where
  "reload s f =
     (case files s f of
        None \<Rightarrow> s
      | Some fl \<Rightarrow> s\<lparr>files := (files s)(f \<mapsto> fl\<lparr>upd_serial := upd_serial fl + 1\<rparr>)\<rparr>)"

subsection \<open>Concrete sources\<close>

text \<open>Inserting a list of (section, block, name, value), with every \<^verbatim>\<open>malloc\<close> succeeding.\<close>

fun build :: "heap \<Rightarrow> (nat \<times> nat \<times> string \<times> string option) list \<Rightarrow> heap option" where
  "build h [] = Some h"
| "build h ((sec, a, nm, v) # xs) =
     (case profile_add_node h (mem a) sec nm v of
        Some (OK, h', _) \<Rightarrow> build h' xs
      | _ \<Rightarrow> None)"

definition no_flags :: iter_flags where
  "no_flags = \<lparr>list_section = False, sections_only = False, relations_only = False,
                final_seen = False\<rparr>"

definition a_profile :: profile where
  "a_profile = \<lparr>profile_magic = PROF_MAGIC_PROFILE, first_file = Some 1\<rparr>"

text \<open>
  A new iterator (at block 100) for the names \<open>a\<close>, \<open>k\<close> over the files of \<open>fs\<close> starting
  at file 1, on the nodes \<open>h\<close>.
\<close>

definition start_ak :: "heap option \<Rightarrow> (nat \<Rightarrow> prf_file option) \<Rightarrow> (pstate \<times> ptr) option" where
  "start_ak h fs =
     (case h of
        None \<Rightarrow> None
      | Some h' \<Rightarrow>
          (case profile_node_iterator_create \<lparr>nodes = h', files = fs, iters = Map.empty\<rparr>
                  (Some 100) (Some a_profile) (Some [''a'', ''k'']) no_flags of
             Some (OK, s, ip) \<Rightarrow> Some (s, ip)
           | _ \<Rightarrow> None))"

text \<open>The outputs of \<open>n\<close> calls from a start.\<close>

definition outputs :: "nat \<Rightarrow> (pstate \<times> ptr) option \<Rightarrow> (errcode \<times> outs) list option" where
  "outputs n start =
     (case start of
        None \<Rightarrow> None
      | Some (s, ip) \<Rightarrow> map_option fst (iterate n no_reload s ip))"

text \<open>Two files, 1 with root 10 and then 2 with root 20; three files, the third with root 30.\<close>

definition two_files :: "nat \<Rightarrow> prf_file option" where
  "two_files = Map.empty(1 \<mapsto> \<lparr>root = Some 10, upd_serial = 0, file_next = Some 2\<rparr>,
                         2 \<mapsto> \<lparr>root = Some 20, upd_serial = 0, file_next = None\<rparr>)"

definition three_files :: "nat \<Rightarrow> prf_file option" where
  "three_files = Map.empty(1 \<mapsto> \<lparr>root = Some 10, upd_serial = 0, file_next = Some 2\<rparr>,
                           2 \<mapsto> \<lparr>root = Some 20, upd_serial = 0, file_next = Some 3\<rparr>,
                           3 \<mapsto> \<lparr>root = Some 30, upd_serial = 0, file_next = None\<rparr>)"

definition roots :: heap where
  "roots = Map.empty(10 \<mapsto> lone ''root'' None, 20 \<mapsto> lone ''root'' None,
                     30 \<mapsto> lone ''root'' None)"

text \<open>
  The sources of the specification's example: in file 1 a final section \<open>a\<close> (at 11) with
  \<open>k = 1\<close> (at 12), in file 2 a section \<open>a\<close> (at 21) with \<open>k = 2\<close> (at 22).
\<close>

definition h_final :: "heap option" where
  "h_final =
     (case build roots [(10, 11, ''a'', None), (11, 12, ''k'', Some ''1''),
                        (20, 21, ''a'', None), (21, 22, ''k'', Some ''2'')] of
        None \<Rightarrow> None
      | Some h \<Rightarrow> map_option snd (profile_make_node_final h 11))"

text \<open>
  In file 1 a section \<open>a\<close> with \<open>k = 1\<close> (at 12); in file 2 a section \<open>a\<close> with \<open>k = 2\<close>,
  \<open>k = 3\<close>, \<open>k = 4\<close> (at 22, 23, 24).
\<close>

definition h_one_three :: "heap option" where
  "h_one_three =
     build roots [(10, 11, ''a'', None), (11, 12, ''k'', Some ''1''),
                  (20, 21, ''a'', None), (21, 22, ''k'', Some ''2''),
                  (21, 23, ''k'', Some ''3''), (21, 24, ''k'', Some ''4'')]"

text \<open>
  Two calls, then file 2 is reloaded with the same content, then two more calls: the
  outputs of the four calls.
\<close>

definition reload_after_two :: "(errcode \<times> outs) list option" where
  "reload_after_two =
     (case start_ak h_one_three two_files of
        None \<Rightarrow> None
      | Some (s, ip) \<Rightarrow>
          (case iterate 2 no_reload s ip of
             None \<Rightarrow> None
           | Some (xs, s', ip') \<Rightarrow>
               (case iterate 2 no_reload (reload s' 2) ip' of
                  None \<Rightarrow> None
                | Some (ys, _, _) \<Rightarrow> Some (xs @ ys))))"

text \<open>
  In files 1 and 2 a section \<open>a\<close> with \<open>j = 0\<close> only; in file 3 a section \<open>a\<close> with
  \<open>k = 1\<close>, \<open>k = 2\<close>, \<open>k = 3\<close> (at 32, 33, 34).
\<close>

definition h_fall_through :: "heap option" where
  "h_fall_through =
     build roots [(10, 11, ''a'', None), (11, 12, ''j'', Some ''0''),
                  (20, 21, ''a'', None), (21, 22, ''j'', Some ''0''),
                  (30, 31, ''a'', None), (31, 32, ''k'', Some ''1''),
                  (31, 33, ''k'', Some ''2''), (31, 34, ''k'', Some ''3'')]"

text \<open>
  One call, with \<^verbatim>\<open>num\<close> after it; then file 3 is reloaded with the same content, and one
  more call.
\<close>

definition fall_through_then_reload :: "((errcode \<times> outs) \<times> 32 word option \<times> (errcode \<times> outs)) option" where
  "fall_through_then_reload =
     (case start_ak h_fall_through three_files of
        None \<Rightarrow> None
      | Some (s, ip) \<Rightarrow>
          (case profile_node_iterator no_reload s ip of
             None \<Rightarrow> None
           | Some (r1, s1, ip1, o1) \<Rightarrow>
               (case profile_node_iterator no_reload (reload s1 3) ip1 of
                  None \<Rightarrow> None
                | Some (r2, s2, ip2, o2) \<Rightarrow>
                    Some ((r1, o1), map_option iter_num (Option.bind ip1 (iters s1)), (r2, o2)))))"

text \<open>
  One file with root 10, the section \<open>a\<close> (at 11) under it and the relation \<open>j = 0\<close>
  (at 12) in the section; an iterator (at block 100) for the names \<open>a\<close>, \<open>k\<close> standing in
  that file at \<open>node\<close> with the name filter \<open>nm\<close>.
\<close>

definition one_file :: "nat \<Rightarrow> prf_file option" where
  "one_file = Map.empty(1 \<mapsto> \<lparr>root = Some 10, upd_serial = 0, file_next = None\<rparr>)"

definition h_a_j :: heap where
  "h_a_j = Map.empty(
     10 \<mapsto> (lone ''root'' None)\<lparr>first_child := Some 11\<rparr>,
     11 \<mapsto> (lone ''a'' None)\<lparr>group_level := 1, parent := Some 10, first_child := Some 12\<rparr>,
     12 \<mapsto> (lone ''j'' (Some ''0''))\<lparr>group_level := 2, parent := Some 11\<rparr>)"

definition it_example :: "ptr \<Rightarrow> string option \<Rightarrow> profile_iterator" where
  "it_example node nm =
     \<lparr>iter_magic = PROF_MAGIC_ITERATOR, iter_profile = a_profile, iter_flags = no_flags,
      iter_names = [''a'', ''k''], iter_name = nm, iter_file = Some 1, iter_file_serial = 0,
      iter_done_idx = 1, iter_node = node, iter_num = 0\<rparr>"

definition s_example :: "ptr \<Rightarrow> string option \<Rightarrow> pstate" where
  "s_example node nm =
     \<lparr>nodes = h_a_j, files = one_file, iters = Map.empty(100 \<mapsto> it_example node nm)\<rparr>"

text \<open>
  The three ways a call on a live iterator returns: the end (status 0, null out
  parameters) or an error of \<^verbatim>\<open>profile_update_file\<close>, both with the iterator freed and
  the handle null; or a node, with the iterator still live.
\<close>

definition call_result_ok :: "pstate \<Rightarrow> nat \<Rightarrow> errcode \<times> pstate \<times> ptr \<times> outs \<Rightarrow> bool" where
  "call_result_ok s i y =
     (case y of (r, s', ip, out) \<Rightarrow>
        (ip = None \<and> iters s' i = None
           \<and> (r = OK \<and> out = Written None None None \<or> r \<noteq> OK \<and> out = Untouched))
        \<or> (ip = Some i \<and> r = OK
           \<and> (\<exists>it it' pa nm v. iters s i = Some it \<and> iters s' i = Some it'
                 \<and> iter_magic it' = PROF_MAGIC_ITERATOR
                 \<and> out = Written (Some pa) nm v)))"

section \<open>What the iterator is to yield\<close>

text \<open>
  For the names \<open>ns\<close> and \<^verbatim>\<open>done_idx\<close> \<open>d\<close>: the names the walk goes down, and the name (or
  null) the search then filters with.
\<close>

definition path_of :: "nat \<Rightarrow> string list \<Rightarrow> string list" where
  "path_of d ns = take (length ns - d) ns"

definition filter_of :: "nat \<Rightarrow> string list \<Rightarrow> string option" where
  "filter_of d ns = (case drop (length ns - d) ns of [] \<Rightarrow> None | c # _ \<Rightarrow> Some c)"

text \<open>
  Going down a path in a tree: at each name the first child that is a section of that
  name. The result is the section reached (if the whole path resolves) and whether one
  of the sections matched on the way is final.
\<close>

fun resolve_path :: "string list \<Rightarrow> tree \<Rightarrow> tree option \<times> bool" where
  "resolve_path [] t = (Some t, False)"
| "resolve_path (c # cs) t =
     (case find (matches (Some c) False) (t_kids t) of
        None \<Rightarrow> (None, False)
      | Some k \<Rightarrow> (case resolve_path cs k of (r, fin) \<Rightarrow> (r, t_final k \<or> fin)))"

text \<open>The test of the search loop: the name (if one is given) and the two kind flags.\<close>

definition qualifies :: "string option \<Rightarrow> iter_flags \<Rightarrow> tree \<Rightarrow> bool" where
  "qualifies nmo fl k =
     ((case nmo of None \<Rightarrow> True | Some s \<Rightarrow> t_name k = s)
      \<and> \<not> (sections_only fl \<and> t_value k \<noteq> None)
      \<and> \<not> (relations_only fl \<and> t_value k = None))"

text \<open>
  The merge over the sources in their order: from each source the qualifying children
  of the section the path resolves to, in sibling order; nothing from the sources after
  one in which a matched section is final.
\<close>

fun merged :: "string list \<Rightarrow> string option \<Rightarrow> iter_flags \<Rightarrow> tree list \<Rightarrow> tree list" where
  "merged path nmo fl [] = []"
| "merged path nmo fl (t # ts) =
     (case resolve_path path t of
        (None, fin) \<Rightarrow> (if fin then [] else merged path nmo fl ts)
      | (Some sec, fin) \<Rightarrow>
          filter (qualifies nmo fl) (t_kids sec) @ (if fin then [] else merged path nmo fl ts))"

text \<open>
  \<open>passes\<close>: the iteration goes through all these sources and on to what follows them:
  no matched section is final, and no path resolves to a section without children.
  \<open>stuck\<close>: it reaches a source whose path resolves to a section that has no children and
  is not final; there the \<^verbatim>\<open>while (iter->node == 0)\<close> loop resolves the same file again
  and again.
\<close>

fun passes :: "string list \<Rightarrow> tree list \<Rightarrow> bool" where
  "passes path [] = True"
| "passes path (t # ts) =
     (case resolve_path path t of
        (None, fin) \<Rightarrow> \<not> fin \<and> passes path ts
      | (Some sec, fin) \<Rightarrow> \<not> fin \<and> t_kids sec \<noteq> [] \<and> passes path ts)"

fun stuck :: "string list \<Rightarrow> tree list \<Rightarrow> bool" where
  "stuck path [] = False"
| "stuck path (t # ts) =
     (case resolve_path path t of
        (None, fin) \<Rightarrow> \<not> fin \<and> stuck path ts
      | (Some sec, fin) \<Rightarrow> \<not> fin \<and> (t_kids sec = [] \<or> stuck path ts))"

text \<open>
  The files from \<open>p\<close> on are the files \<open>fts\<close>, each with its number and the tree under its
  root, and the file after the last of them is \<open>e\<close>.
\<close>

fun is_files ::
  "heap \<Rightarrow> (nat \<Rightarrow> prf_file option) \<Rightarrow> ptr \<Rightarrow> (nat \<times> tree) list \<Rightarrow> ptr \<Rightarrow> bool" where
  "is_files h fs p [] e = (p = e)"
| "is_files h fs p ((f, t) # fts) e =
     (p = Some f \<and>
      (case fs f of
         None \<Rightarrow> False
       | Some fl \<Rightarrow> root fl = Some (t_addr t) \<and> is_tree h t \<and> is_files h fs (file_next fl) fts e))"

text \<open>What a call writes for a node.\<close>

definition yield :: "tree \<Rightarrow> errcode \<times> outs" where
  "yield c = (OK, Written (Some (t_addr c)) (Some (t_name c)) (t_value c))"

text \<open>
  One call, from the siblings \<open>rest\<close> left in the current section, the files \<open>fts\<close> after
  the current one and the \<^verbatim>\<open>FINAL_SEEN\<close> bit: it ends the iteration, never returns, or
  gives a node and leaves the siblings, files and bit of the next call.
\<close>

datatype outcome = Ends | Never | Gives tree "tree list" "(nat \<times> tree) list" bool

fun next_from ::
  "string list \<Rightarrow> string option \<Rightarrow> iter_flags \<Rightarrow> bool \<Rightarrow> (nat \<times> tree) list \<Rightarrow> outcome" where
  "next_from path nmo fl fin [] = Ends"
| "next_from path nmo fl fin ((f, t) # fts) =
     (if fin then Ends
      else
        (case resolve_path path t of
           (None, fin') \<Rightarrow> next_from path nmo fl fin' fts
         | (Some sec, fin') \<Rightarrow>
             (if t_kids sec = [] then (if fin' then Ends else Never)
              else
                (case dropWhile (\<lambda>k. \<not> qualifies nmo fl k) (t_kids sec) of
                   [] \<Rightarrow> next_from path nmo fl fin' fts
                 | c # rest \<Rightarrow> Gives c rest fts fin'))))"

definition step ::
  "string list \<Rightarrow> string option \<Rightarrow> iter_flags \<Rightarrow> tree list \<Rightarrow> (nat \<times> tree) list \<Rightarrow> bool \<Rightarrow>
     outcome" where
  "step path nmo fl rest fts fin =
     (case dropWhile (\<lambda>k. \<not> qualifies nmo fl k) rest of
        [] \<Rightarrow> next_from path nmo fl fin fts
      | c # rest' \<Rightarrow> Gives c rest' fts fin)"

text \<open>
  The iterator at \<open>i\<close> stands at the siblings \<open>rest\<close> with the files \<open>fts\<close> to come and the
  bit \<open>fin\<close>; \<^verbatim>\<open>profile_update_file\<close> succeeds on these files and leaves them as they
  are; and either nothing follows them (\<open>e\<close> is null) or the iteration does not go
  through all of them.
\<close>

definition iter_inv ::
  "update_file \<Rightarrow> iter_flags \<Rightarrow> string list \<Rightarrow> nat \<Rightarrow> ptr \<Rightarrow> pstate \<Rightarrow> nat \<Rightarrow>
     tree list \<Rightarrow> (nat \<times> tree) list \<Rightarrow> bool \<Rightarrow> bool" where
  "iter_inv U fl ns d e s i rest fts fin =
     (\<exists>it. iters s i = Some it \<and> iter_magic it = PROF_MAGIC_ITERATOR
        \<and> iter_flags it = fl\<lparr>final_seen := fin\<rparr> \<and> iter_names it = ns
        \<and> iter_done_idx it = d \<and> d \<le> length ns
        \<and> iter_node it = first_or rest None
        \<and> (\<forall>ft \<in> set fts. U (nodes s) (files s) (fst ft) = (OK, nodes s, files s))
        \<and> (e = None \<or> fin \<or> \<not> passes (path_of d ns) (map snd fts))
        \<and> (if rest = [] then is_files (nodes s) (files s) (iter_file it) fts e
            else iter_name it = filter_of d ns
              \<and> (\<exists>f flr sec lvl prv. iter_file it = Some f \<and> files s f = Some flr
                    \<and> upd_serial flr = iter_file_serial it
                    \<and> is_files (nodes s) (files s) (file_next flr) fts e
                    \<and> is_sibs (nodes s) sec lvl prv rest None)))"

text \<open>
  The iterator at \<open>i\<close> stands between files at a file on which \<^verbatim>\<open>profile_update_file\<close>
  changes nothing and in which the path resolves, with no final section, to a section
  without children.
\<close>

definition spinning :: "update_file \<Rightarrow> pstate \<Rightarrow> nat \<Rightarrow> bool" where
  "spinning U s i =
     (\<exists>it f fl r sa cpp sn.
        iters s i = Some it \<and> iter_node it = None \<and> iter_file it = Some f
        \<and> \<not> final_seen (iter_flags it)
        \<and> U (nodes s) (files s) f = (OK, nodes s, files s)
        \<and> files s f = Some fl \<and> root fl = Some r
        \<and> walk_names (nodes s) (iter_done_idx it) (iter_names it) r False
             = Some (Some sa, cpp, False)
        \<and> nodes s sa = Some sn \<and> first_child sn = None)"

text \<open>The state with the iterator at \<open>i\<close> freed.\<close>

definition freed :: "pstate \<Rightarrow> nat \<Rightarrow> pstate" where
  "freed s i = s\<lparr>iters := (iters s)(i := None)\<rparr>"

text \<open>
  What is still to be yielded from the siblings \<open>rest\<close>, the files \<open>fts\<close> and the bit
  \<open>fin\<close>.
\<close>

definition remaining ::
  "string list \<Rightarrow> string option \<Rightarrow> iter_flags \<Rightarrow> tree list \<Rightarrow> (nat \<times> tree) list \<Rightarrow> bool \<Rightarrow>
     tree list" where
  "remaining path nmo fl rest fts fin =
     filter (qualifies nmo fl) rest @ (if fin then [] else merged path nmo fl (map snd fts))"

text \<open>
  A new iterator at block \<open>i\<close> for the names \<open>ns\<close> and the flags \<open>fl\<close>, and then \<open>n\<close> calls
  on its handle: the status and out parameters of each call, and the handle after the
  last.
\<close>

definition iterate_new ::
  "nat \<Rightarrow> update_file \<Rightarrow> pstate \<Rightarrow> nat \<Rightarrow> profile \<Rightarrow> string list \<Rightarrow> iter_flags \<Rightarrow>
     ((errcode \<times> outs) list \<times> ptr) option" where
  "iterate_new n U s i pr ns fl =
     (case profile_node_iterator_create s (Some i) (Some pr) (Some ns) fl of
        Some (OK, s0, ip) \<Rightarrow> map_option (\<lambda>(xs, s', ip'). (xs, ip')) (iterate n U s0 ip)
      | _ \<Rightarrow> None)"

text \<open>
  The two sources of the specification's example as nodes and as trees: file 1 with the
  final section \<open>a\<close> holding \<open>k = 1\<close>, file 2 with the section \<open>a\<close> holding \<open>k = 2\<close>
  (and the unused root at 30).
\<close>

definition final_nodes :: heap where
  "final_nodes = Map.empty(
     10 \<mapsto> (lone ''root'' None)\<lparr>first_child := Some 11\<rparr>,
     11 \<mapsto> (lone ''a'' None)\<lparr>group_level := 1, final := True, parent := Some 10,
                                first_child := Some 12\<rparr>,
     12 \<mapsto> (lone ''k'' (Some ''1''))\<lparr>group_level := 2, parent := Some 11\<rparr>,
     20 \<mapsto> (lone ''root'' None)\<lparr>first_child := Some 21\<rparr>,
     21 \<mapsto> (lone ''a'' None)\<lparr>group_level := 1, parent := Some 20, first_child := Some 22\<rparr>,
     22 \<mapsto> (lone ''k'' (Some ''2''))\<lparr>group_level := 2, parent := Some 21\<rparr>,
     30 \<mapsto> lone ''root'' None)"

definition final_state :: pstate where
  "final_state = \<lparr>nodes = final_nodes, files = two_files, iters = Map.empty\<rparr>"

definition t_s1 :: tree where
  "t_s1 = Tree 10 ''root'' None False
            [Tree 11 ''a'' None True [Tree 12 ''k'' (Some ''1'') False []]]"

definition t_s2 :: tree where
  "t_s2 = Tree 20 ''root'' None False
            [Tree 21 ''a'' None False [Tree 22 ''k'' (Some ''2'') False []]]"

text \<open>
  Listing a section: in the one file the section \<open>a\<close> (at 11), into which \<open>z = 1\<close> (at 12)
  and then \<open>b = 2\<close> (at 13) are inserted; a new iterator with \<^verbatim>\<open>PROFILE_ITER_LIST_SECTION\<close>
  for the name \<open>a\<close>, and three calls.
\<close>

definition list_flags :: iter_flags where
  "list_flags = \<lparr>list_section = True, sections_only = False, relations_only = False,
                  final_seen = False\<rparr>"

definition list_a_z_b :: "((errcode \<times> outs) list \<times> ptr) option" where
  "list_a_z_b =
     (case build roots [(10, 11, ''a'', None), (11, 12, ''z'', Some ''1''),
                        (11, 13, ''b'', Some ''2'')] of
        None \<Rightarrow> None
      | Some h \<Rightarrow>
          iterate_new 3 no_reload \<lparr>nodes = h, files = one_file, iters = Map.empty\<rparr> 100
            a_profile [''a''] list_flags)"

text \<open>
  Two files: in file 1 the section \<open>a\<close> (at 11) is empty and not final, in file 2 the
  section \<open>a\<close> (at 21) holds \<open>k = 2\<close> (at 22) (and the unused root at 30).
\<close>

definition empty_a_nodes :: heap where
  "empty_a_nodes = Map.empty(
     10 \<mapsto> (lone ''root'' None)\<lparr>first_child := Some 11\<rparr>,
     11 \<mapsto> (lone ''a'' None)\<lparr>group_level := 1, parent := Some 10\<rparr>,
     20 \<mapsto> (lone ''root'' None)\<lparr>first_child := Some 21\<rparr>,
     21 \<mapsto> (lone ''a'' None)\<lparr>group_level := 1, parent := Some 20, first_child := Some 22\<rparr>,
     22 \<mapsto> (lone ''k'' (Some ''2''))\<lparr>group_level := 2, parent := Some 21\<rparr>,
     30 \<mapsto> lone ''root'' None)"

definition empty_a_state :: pstate where
  "empty_a_state = \<lparr>nodes = empty_a_nodes, files = two_files, iters = Map.empty\<rparr>"

section \<open>Counting the searches\<close>

text \<open>
  \<open>get_new_file\<close> once more, with a count: \<open>c\<close> is increased by one each time the search
  loop over the siblings has ended, on both ways out of it, and is returned with the
  result. Nothing else differs, so the result is that of \<open>get_new_file\<close>.
\<close>

partial_function (option) get_new_file_scans ::
  "update_file \<Rightarrow> pstate \<Rightarrow> nat \<Rightarrow> 32 word \<Rightarrow> nat \<Rightarrow>
     ((errcode \<times> pstate \<times> ptr \<times> outs) \<times> nat) option" where
  "get_new_file_scans U s i skip_num c =
     (case iters s i of
        None \<Rightarrow> None
      | Some it \<Rightarrow>
          (case iter_node it of
             None \<Rightarrow>
               if iter_file it = None \<or> final_seen (iter_flags it) then
                 (case profile_node_iterator_free s (Some (Some i)) of
                    None \<Rightarrow> None
                  | Some (s', ip) \<Rightarrow> Some ((OK, s', Option.bind ip id, Written None None None), c))
               else
                 (case iter_file it of
                    None \<Rightarrow> None
                  | Some f \<Rightarrow>
                      (case U (nodes s) (files s) f of
                         (retval, h1, fs1) \<Rightarrow>
                           if retval \<noteq> OK then
                             (case profile_node_iterator_free (s\<lparr>nodes := h1, files := fs1\<rparr>)
                                     (Some (Some i)) of
                                None \<Rightarrow> None
                              | Some (s', ip) \<Rightarrow>
                                  Some ((retval, s', Option.bind ip id, Untouched), c))
                           else
                             (case fs1 f of
                                None \<Rightarrow> None
                              | Some fl \<Rightarrow>
                                  (case root fl of
                                     None \<Rightarrow> None
                                   | Some r \<Rightarrow>
                                       (case walk_names h1 (iter_done_idx it) (iter_names it) r
                                               (final_seen (iter_flags it)) of
                                          None \<Rightarrow> None
                                        | Some (section, cpp, seen) \<Rightarrow>
                                            (case section of
                                               None \<Rightarrow>
                                                 get_new_file_scans U
                                                   (set_iter (s\<lparr>nodes := h1, files := fs1\<rparr>) i
                                                      (it\<lparr>iter_file_serial := upd_serial fl,
                                                          iter_flags := (iter_flags it)\<lparr>final_seen := seen\<rparr>,
                                                          iter_file := file_next fl\<rparr>))
                                                   i 0 c
                                             | Some sa \<Rightarrow>
                                                 (case h1 sa of
                                                    None \<Rightarrow> None
                                                  | Some sn \<Rightarrow>
                                                      get_new_file_scans U
                                                        (set_iter (s\<lparr>nodes := h1, files := fs1\<rparr>) i
                                                           (it\<lparr>iter_file_serial := upd_serial fl,
                                                               iter_flags := (iter_flags it)\<lparr>final_seen := seen\<rparr>,
                                                               iter_name := (case cpp of [] \<Rightarrow> None | c # _ \<Rightarrow> Some c),
                                                               iter_node := first_child sn\<rparr>))
                                                        i skip_num c)))))))
           | Some _ \<Rightarrow>
               (case iter_scan (nodes s) (iter_name it) (iter_flags it) (iter_node it) skip_num of
                  None \<Rightarrow> None
                | Some p \<Rightarrow>
                    (case p of
                       None \<Rightarrow>
                         (case Option.bind (iter_file it) (files s) of
                            None \<Rightarrow> None
                          | Some fl \<Rightarrow>
                              get_new_file_scans U
                                (set_iter s i (it\<lparr>iter_num := iter_num it + 1,
                                                  iter_file := file_next fl, iter_node := None\<rparr>))
                                i 0 (Suc c))
                     | Some pa \<Rightarrow>
                         (case nodes s pa of
                            None \<Rightarrow> None
                          | Some pn \<Rightarrow>
                              (case (if next pn = None
                                     then map_option file_next (Option.bind (iter_file it) (files s))
                                     else Some (iter_file it)) of
                                 None \<Rightarrow> None
                               | Some f' \<Rightarrow>
                                   Some ((OK,
                                     set_iter s i (it\<lparr>iter_num := iter_num it + 1,
                                                      iter_node := next pn, iter_file := f'\<rparr>),
                                     Some i, Written p (name pn) (value pn)), Suc c)))))))"

text \<open>A call of \<^verbatim>\<open>profile_node_iterator\<close> with the number of searches that ended in it.\<close>

definition profile_node_iterator_scans ::
  "update_file \<Rightarrow> pstate \<Rightarrow> ptr \<Rightarrow> ((errcode \<times> pstate \<times> ptr \<times> outs) \<times> nat) option" where
  "profile_node_iterator_scans U s iter_p =
     (case iter_p of
        None \<Rightarrow> Some ((PROF_MAGIC_ITERATOR, s, iter_p, Untouched), 0)
      | Some i \<Rightarrow>
          (case iters s i of
             None \<Rightarrow> None
           | Some it \<Rightarrow>
               if iter_magic it \<noteq> PROF_MAGIC_ITERATOR
                 then Some ((PROF_MAGIC_ITERATOR, s, iter_p, Untouched), 0)
               else
                 (case iter_node it of
                    None \<Rightarrow> get_new_file_scans U s i 0 0
                  | Some _ \<Rightarrow>
                      (case Option.bind (iter_file it) (files s) of
                         None \<Rightarrow> None
                       | Some fl \<Rightarrow>
                           if upd_serial fl \<noteq> iter_file_serial it then
                             get_new_file_scans U
                               (set_iter s i (it\<lparr>iter_flags := (iter_flags it)\<lparr>final_seen := False\<rparr>,
                                                iter_node := None\<rparr>))
                               i (iter_num it) 0
                           else get_new_file_scans U s i 0 0))))"

declare get_new_file_scans.simps [code]

text \<open>
  The life of the iterator at \<open>i\<close> from the state \<open>s0\<close> in which it was created:
  \<open>lifetime U i s0 m s\<close> when \<open>s\<close> is reached from \<open>s0\<close> by calls of
  \<^verbatim>\<open>profile_node_iterator\<close> on it that leave it live, and by anything else that does not
  touch the iterator (files reloaded, trees edited, other iterators), and \<open>m\<close> searches
  have ended in these calls.
\<close>

inductive lifetime :: "update_file \<Rightarrow> nat \<Rightarrow> pstate \<Rightarrow> nat \<Rightarrow> pstate \<Rightarrow> bool" where
  created: "lifetime U i s0 0 s0"
| call: "lifetime U i s0 m s \<Longrightarrow>
         profile_node_iterator_scans U s (Some i) = Some ((r, s', Some i, out), n) \<Longrightarrow>
         lifetime U i s0 (m + n) s'"
| other: "lifetime U i s0 m s \<Longrightarrow> iters s' i = iters s i \<Longrightarrow> lifetime U i s0 m s'"

text \<open>
  What a counted call from the count \<open>c\<close> has done to \<^verbatim>\<open>num\<close>: either the iterator is freed,
  or it is live, at least one search has ended, and \<^verbatim>\<open>num\<close> has been increased (as a
  32-bit number) by the number of searches that ended.
\<close>

definition counted ::
  "pstate \<Rightarrow> nat \<Rightarrow> nat \<Rightarrow> (errcode \<times> pstate \<times> ptr \<times> outs) \<times> nat \<Rightarrow> bool" where
  "counted s i c yc =
     (case yc of ((r, s', ip, out), c') \<Rightarrow>
        c \<le> c'
        \<and> (ip = None \<and> iters s' i = None
           \<or> ip = Some i \<and> c < c'
             \<and> (\<exists>it it'. iters s i = Some it \<and> iters s' i = Some it'
                   \<and> iter_magic it' = PROF_MAGIC_ITERATOR
                   \<and> iter_num it' = iter_num it + of_nat (c' - c))))"

text \<open>
  One file with root 10, the section \<open>a\<close> (at 11) under it and in it the relations \<open>j = 0\<close>
  (at 12) and \<open>j = 1\<close> (at 13); an iterator (at block 100) for the names \<open>a\<close>, \<open>j\<close> with
  the name filter \<open>nm\<close>, standing at \<open>node\<close> with \<^verbatim>\<open>num\<close> = \<open>n\<close>.
\<close>

definition h_a_jj :: heap where
  "h_a_jj = Map.empty(
     10 \<mapsto> (lone ''root'' None)\<lparr>first_child := Some 11\<rparr>,
     11 \<mapsto> (lone ''a'' None)\<lparr>group_level := 1, parent := Some 10, first_child := Some 12\<rparr>,
     12 \<mapsto> (lone ''j'' (Some ''0''))\<lparr>group_level := 2, parent := Some 11, next := Some 13\<rparr>,
     13 \<mapsto> (lone ''j'' (Some ''1''))\<lparr>group_level := 2, parent := Some 11, prev := Some 12\<rparr>)"

definition it_aj :: "string option \<Rightarrow> ptr \<Rightarrow> 32 word \<Rightarrow> profile_iterator" where
  "it_aj nm node n =
     \<lparr>iter_magic = PROF_MAGIC_ITERATOR, iter_profile = a_profile, iter_flags = no_flags,
      iter_names = [''a'', ''j''], iter_name = nm, iter_file = Some 1, iter_file_serial = 0,
      iter_done_idx = 1, iter_node = node, iter_num = n\<rparr>"

definition s_aj :: "string option \<Rightarrow> ptr \<Rightarrow> 32 word \<Rightarrow> pstate" where
  "s_aj nm node n = \<lparr>nodes = h_a_jj, files = one_file, iters = Map.empty(100 \<mapsto> it_aj nm node n)\<rparr>"

text \<open>
  The iterator stands at \<open>j = 0\<close> with \<^verbatim>\<open>num\<close> = \<^verbatim>\<open>INT_MAX\<close>. One call, with \<^verbatim>\<open>num\<close> after it read
  as a signed number; then the file is reloaded with the same content, and one more
  call.
\<close>

definition wrap_then_reload :: "((errcode \<times> outs) \<times> int option \<times> (errcode \<times> outs)) option" where
  "wrap_then_reload =
     (case profile_node_iterator no_reload (s_aj (Some ''j'') (Some 12) 2147483647) (Some 100) of
        None \<Rightarrow> None
      | Some (r1, s1, ip1, o1) \<Rightarrow>
          (case profile_node_iterator no_reload (reload s1 1) ip1 of
             None \<Rightarrow> None
           | Some (r2, s2, ip2, o2) \<Rightarrow>
               Some ((r1, o1), map_option (\<lambda>it. sint (iter_num it)) (Option.bind ip1 (iters s1)),
                     (r2, o2))))"

text \<open>The number of searches that end in the first call over the three files.\<close>

definition fall_through_scans :: "nat option" where
  "fall_through_scans =
     (case start_ak h_fall_through three_files of
        None \<Rightarrow> None
      | Some (s, ip) \<Rightarrow> map_option snd (profile_node_iterator_scans no_reload s ip))"

section \<open>Lemmas about the tree\<close>

lemma addrs_simps [simp]:
  "addrs (Tree a nm v f ks) = a # kaddrs ks"
  "kaddrs [] = []"
  "kaddrs (k # ks) = addrs k @ kaddrs ks"
  by (simp_all add: addrs_def kaddrs_def)

lemma t_addr_in_addrs [simp]: "t_addr t \<in> set (addrs t)"
  by (cases t) simp

lemma is_node_frame:
  "is_node h par lvl prv nxt t \<Longrightarrow> (\<forall>a \<in> set (addrs t). h' a = h a) \<Longrightarrow> is_node h' par lvl prv nxt t"
  "is_sibs h pa lvl prv ks e \<Longrightarrow> (\<forall>a \<in> set (kaddrs ks). h' a = h a) \<Longrightarrow> is_sibs h' pa lvl prv ks e"
  by (induction h par lvl prv nxt t and h pa lvl prv ks e rule: is_node_is_sibs.induct) auto

lemma verify_ok:
  "is_node h par lvl prv nxt t \<Longrightarrow> verify_walk h (Inl (t_addr t)) = Some OK"
  "is_sibs h pa lvl prv ks e \<Longrightarrow> e = None \<Longrightarrow>
     (\<exists>n. h pa = Some n \<and> group_level n + 1 = lvl) \<Longrightarrow>
     (case prv of None \<Rightarrow> True | Some la \<Rightarrow> (\<exists>ln. h la = Some ln \<and> next ln = first_or ks None)) \<Longrightarrow>
     verify_walk h (Inr (pa, first_or ks None, prv)) = Some OK"
proof (induction h par lvl prv nxt t and h pa lvl prv ks e rule: is_node_is_sibs.induct)
  case (1 h par lvl prv nxt a nm v f ks)
  then show ?case
    by (subst verify_walk.simps) (cases ks; auto)
next
  case (2 h pa lvl prv e)
  then show ?case by (subst verify_walk.simps) simp
next
  case (3 h pa lvl prv k ks e)
  then show ?case
    apply (subst verify_walk.simps)
    apply (cases k)
    apply (auto split: option.splits)
    done
qed

lemma last_or_append [simp]: "last_or (xs @ ys) e = last_or ys (last_or xs e)"
  by (induction xs arbitrary: e) auto

lemma first_or_append [simp]: "first_or (xs @ ys) e = first_or xs (first_or ys e)"
  by (cases xs) auto

lemma kaddrs_append [simp]: "kaddrs (xs @ ys) = kaddrs xs @ kaddrs ys"
  by (induction xs) auto

lemma is_sibs_append:
  "is_sibs h pa lvl prv (xs @ ys) e =
     (is_sibs h pa lvl prv xs (first_or ys e) \<and> is_sibs h pa lvl (last_or xs prv) ys e)"
  by (induction xs arbitrary: prv) auto

lemma is_node_relink:
  assumes "is_node h par lvl prv nxt t"
    and "h (t_addr t) = Some n"
    and "h' (t_addr t) = Some (n\<lparr>prev := prv', next := nxt'\<rparr>)"
    and "\<forall>a \<in> set (kaddrs (t_kids t)). h' a = h a"
  shows "is_node h' par lvl prv' nxt' t"
proof -
  obtain a nm v f cs where t: "t = Tree a nm v f cs" by (cases t)
  have "is_sibs h' a (lvl + 1) None cs None"
    using assms t by (auto intro: is_node_frame(2))
  with assms t show ?thesis by auto
qed

lemma is_sibs_new_prev:
  assumes "is_sibs h pa lvl prv (k # ks) e"
    and "h (t_addr k) = Some n"
    and "h' (t_addr k) = Some (n\<lparr>prev := prv'\<rparr>)"
    and "\<forall>a \<in> set (kaddrs (k # ks)). a \<noteq> t_addr k \<longrightarrow> h' a = h a"
    and "distinct (kaddrs (k # ks))"
  shows "is_sibs h' pa lvl prv' (k # ks) e"
proof -
  obtain a nm v f cs where k: "k = Tree a nm v f cs" by (cases k)
  have cs: "is_sibs h' a (lvl + 1) None cs None"
    using assms k by (auto intro: is_node_frame(2))
  have ks: "is_sibs h' pa lvl (Some a) ks e"
    using assms k by (auto intro: is_node_frame(2))
  from assms(1-3) k cs ks show ?thesis by auto
qed

lemma last_or_in_kaddrs: "ks \<noteq> [] \<Longrightarrow> last_or ks e = Some l \<Longrightarrow> l \<in> set (kaddrs ks)"
proof (induction ks arbitrary: e)
  case Nil
  then show ?case by simp
next
  case (Cons k ks)
  show ?case
  proof (cases "ks = []")
    case True
    with Cons.prems show ?thesis by auto
  next
    case False
    from Cons.IH[OF False, of "Some (t_addr k)"] Cons.prems show ?thesis by simp
  qed
qed

lemma is_sibs_new_end:
  assumes "is_sibs h pa lvl prv ks e"
    and "ks \<noteq> []"
    and "last_or ks prv = Some l"
    and "h l = Some n"
    and "h' l = Some (n\<lparr>next := e'\<rparr>)"
    and "\<forall>a \<in> set (kaddrs ks). a \<noteq> l \<longrightarrow> h' a = h a"
    and "distinct (kaddrs ks)"
  shows "is_sibs h' pa lvl prv ks e'"
  using assms
proof (induction ks arbitrary: prv)
  case Nil
  then show ?case by simp
next
  case (Cons k ks)
  obtain a nm v f cs where k: "k = Tree a nm v f cs" by (cases k)
  show ?case
  proof (cases ks)
    case Nil
    have cs: "is_sibs h' a (lvl + 1) None cs None"
    proof (rule is_node_frame(2))
      show "is_sibs h a (lvl + 1) None cs None" using Cons.prems(1) k by simp
      show "\<forall>x\<in>set (kaddrs cs). h' x = h x" using Cons.prems(3,6,7) k Nil by auto
    qed
    from Cons.prems(1,3,4,5) k Nil cs show ?thesis by auto
  next
    case ks_eq: (Cons k' ks')
    have lo: "last_or ks (Some a) = Some l" using Cons.prems(3) k by simp
    have l: "l \<in> set (kaddrs ks)"
      using ks_eq lo by (intro last_or_in_kaddrs[of ks "Some a"]) auto
    have ne: "l \<noteq> a" "l \<notin> set (kaddrs cs)"
      using Cons.prems(7) l k by auto
    have cs: "is_sibs h' a (lvl + 1) None cs None"
    proof (rule is_node_frame(2))
      show "is_sibs h a (lvl + 1) None cs None" using Cons.prems(1) k by simp
      show "\<forall>x\<in>set (kaddrs cs). h' x = h x" using Cons.prems(6) ne k by auto
    qed
    have ha: "h' a = h a"
      using Cons.prems(6) k ne by auto
    have tl: "is_sibs h' pa lvl (Some a) ks e'"
    proof (rule Cons.IH)
      show "is_sibs h pa lvl (Some a) ks e" using Cons.prems(1) k by simp
      show "ks \<noteq> []" using ks_eq by simp
      show "last_or ks (Some a) = Some l" by (rule lo)
      show "h l = Some n" by (rule Cons.prems(4))
      show "h' l = Some (n\<lparr>next := e'\<rparr>)" by (rule Cons.prems(5))
      show "\<forall>a\<in>set (kaddrs ks). a \<noteq> l \<longrightarrow> h' a = h a" using Cons.prems(6) by simp
      show "distinct (kaddrs ks)" using Cons.prems(7) by simp
    qed
    from Cons.prems(1) k cs ha tl ks_eq show ?thesis by auto
  qed
qed

lemma is_node_live:
  "is_node h par lvl prv nxt t \<Longrightarrow> \<forall>a \<in> set (addrs t). h a \<noteq> None"
  "is_sibs h pa lvl prv ks e \<Longrightarrow> \<forall>a \<in> set (kaddrs ks). h a \<noteq> None"
  by (induction h par lvl prv nxt t and h pa lvl prv ks e rule: is_node_is_sibs.induct) auto

lemma name_le_Tree [simp]: "name_le nm (Tree a knm v f cs) = (\<not> strcmp knm nm > 0)"
  by (simp add: name_le_def)

lemma add_scan_sibs:
  "is_sibs h pa lvl prv ks None \<Longrightarrow>
   add_scan h nm (first_or ks None) prv =
     Some (first_or (dropWhile (name_le nm) ks) None, last_or (takeWhile (name_le nm) ks) prv)"
proof (induction ks arbitrary: prv)
  case Nil
  then show ?case by (subst add_scan.simps) simp
next
  case (Cons k ks)
  obtain a knm v f cs where k: "k = Tree a knm v f cs" by (cases k)
  show ?case
  proof (cases "name_le nm k")
    case True
    with Cons k show ?thesis
      by (subst add_scan.simps) simp
  next
    case False
    with Cons k show ?thesis
      by (subst add_scan.simps) simp
  qed
qed

lemma first_or_in_kaddrs: "first_or ks None = Some a \<Longrightarrow> a \<in> set (kaddrs ks)"
  by (cases ks) auto

lemma last_or_None_in_kaddrs: "last_or ks None = Some l \<Longrightarrow> l \<in> set (kaddrs ks)"
  by (cases "ks = []") (auto intro: last_or_in_kaddrs)

lemma first_or_hd: "first_or ks None = Some a \<Longrightarrow> ks \<noteq> [] \<and> a = t_addr (hd ks)"
  by (cases ks) auto

lemma last_or_None_iff: "last_or ks e = None \<longleftrightarrow> ks = [] \<and> e = None"
  by (induction ks arbitrary: e) auto

lemma add_local:
  assumes node: "is_node h par lvl prv nxt (Tree sec snm None f ks)"
    and dist: "distinct (addrs (Tree sec snm None f ks))"
    and fresh: "h new = None"
    and mem: "node_mem m = Some new" "name_mem m" "v \<noteq> None \<longrightarrow> value_mem m"
  shows "\<exists>h'. profile_add_node h m sec nm v = Some (OK, h', Some new)
            \<and> is_node h' par lvl prv nxt (Tree sec snm None f (insert_kid new nm v ks))
            \<and> (\<forall>a. a \<notin> set (addrs (Tree sec snm None f ks)) \<and> a \<noteq> new \<longrightarrow> h' a = h a)"
proof -
  define pre where "pre = takeWhile (name_le nm) ks"
  define post where "post = dropWhile (name_le nm) ks"
  have ks: "ks = pre @ post" by (simp add: pre_def post_def)
  define L where "L = lvl + 1"
  define sn where "sn = \<lparr>magic = PROF_MAGIC_NODE, name = Some snm, value = None, group_level = lvl,
                  final = f, first_child = first_or ks None, parent = par, next = nxt,
                  prev = prv\<rparr>"
  have hsec: "h sec = Some sn" and sibs: "is_sibs h sec L None ks None"
    using node by (simp_all add: sn_def L_def)
  have sibs_pre: "is_sibs h sec L None pre (first_or post None)"
    and sibs_post: "is_sibs h sec L (last_or pre None) post None"
    using sibs unfolding ks is_sibs_append by simp_all
  have live: "\<forall>a \<in> set (kaddrs ks). h a \<noteq> None"
    using is_node_live(2)[OF sibs] .
  have new_notin: "new \<noteq> sec" "new \<notin> set (kaddrs ks)"
    using fresh hsec live by auto
  have scan: "add_scan h nm (first_child sn) None = Some (first_or post None, last_or pre None)"
    using add_scan_sibs[OF sibs, of nm] by (simp add: sn_def pre_def post_def)
  define nn where "nn = \<lparr>magic = PROF_MAGIC_NODE, name = Some nm, value = v, group_level = L,
                  final = False, first_child = None, parent = Some sec, next = first_or post None,
                  prev = last_or pre None\<rparr>"
  have pa_in: "first_or post None = Some pa \<Longrightarrow> pa \<in> set (kaddrs post)" for pa
    by (rule first_or_in_kaddrs)
  have la_in: "last_or pre None = Some la \<Longrightarrow> la \<in> set (kaddrs pre)" for la
    by (rule last_or_None_in_kaddrs)
  have dk: "distinct (kaddrs pre)" "distinct (kaddrs post)"
    "set (kaddrs pre) \<inter> set (kaddrs post) = {}" "sec \<notin> set (kaddrs pre)" "sec \<notin> set (kaddrs post)"
    "new \<notin> set (kaddrs pre)" "new \<notin> set (kaddrs post)"
    using dist new_notin unfolding ks by auto
  define h2 where "h2 = h(new \<mapsto> nn)"
  define h3 where "h3 = (case first_or post None of None \<Rightarrow> h2
                         | Some pa \<Rightarrow> h2(pa \<mapsto> (the (h pa))\<lparr>prev := Some new\<rparr>))"
  define h4 where "h4 = (case last_or pre None of
                           Some la \<Rightarrow> h3(la \<mapsto> (the (h la))\<lparr>next := Some new\<rparr>)
                         | None \<Rightarrow> h3(sec \<mapsto> sn\<lparr>first_child := Some new\<rparr>))"
  have create: "profile_create_node h m nm v =
      Some (OK, h(new \<mapsto> zero_node\<lparr>name := Some nm, value := v, magic := PROF_MAGIC_NODE\<rparr>), Some new)"
    using mem fresh by (cases v) (simp_all add: profile_create_node_def)
  have p2: "poke (h(new \<mapsto> zero_node\<lparr>name := Some nm, value := v, magic := PROF_MAGIC_NODE\<rparr>)) new
              (\<lambda>n. n\<lparr>group_level := group_level sn + 1, parent := Some sec,
                      prev := last_or pre None, next := first_or post None\<rparr>) = Some h2"
    by (simp add: poke_def h2_def nn_def zero_node_def sn_def L_def)
  have p3: "(case first_or post None of None \<Rightarrow> Some h2
             | Some pa \<Rightarrow> poke h2 pa (\<lambda>n. n\<lparr>prev := Some new\<rparr>)) = Some h3"
  proof (cases "first_or post None")
    case None
    then show ?thesis by (simp add: h3_def)
  next
    case (Some pa)
    from pa_in[OF Some] have "pa \<noteq> new" "h pa \<noteq> None" using dk live ks by auto
    then obtain n where "h2 pa = Some n" "h pa = Some n" by (auto simp: h2_def)
    with Some show ?thesis by (simp add: h3_def poke_def)
  qed
  have p4: "(case last_or pre None of
               Some la \<Rightarrow> poke h3 la (\<lambda>n. n\<lparr>next := Some new\<rparr>)
             | None \<Rightarrow> poke h3 sec (\<lambda>n. n\<lparr>first_child := Some new\<rparr>)) = Some h4"
  proof (cases "last_or pre None")
    case None
    have "h3 sec = Some sn"
      using hsec new_notin dk pa_in by (auto simp: h3_def h2_def split: option.splits)
    with None show ?thesis by (simp add: h4_def poke_def)
  next
    case (Some la)
    from la_in[OF Some] have a: "la \<noteq> new" "h la \<noteq> None" "la \<notin> set (kaddrs post)"
      using dk live ks by auto
    then obtain n where "h la = Some n" by auto
    with a have "h3 la = Some n"
      using pa_in by (auto simp: h3_def h2_def split: option.splits)
    with Some \<open>h la = Some n\<close> show ?thesis by (simp add: h4_def poke_def)
  qed
  have run: "profile_add_node h m sec nm v = Some (OK, h4, Some new)"
    using hsec scan create p2 p3 p4
    by (simp add: profile_add_node_def sn_def)
  have h4_new: "h4 new = Some nn"
    using dk new_notin pa_in la_in
    by (auto simp: h4_def h3_def h2_def split: option.splits)
  have h4_pa: "h4 pa = Some ((the (h pa))\<lparr>prev := Some new\<rparr>)" if "first_or post None = Some pa" for pa
    using that dk pa_in[OF that] la_in
    by (auto simp: h4_def h3_def h2_def split: option.splits)
  have h4_la: "h4 la = Some ((the (h la))\<lparr>next := Some new\<rparr>)" if "last_or pre None = Some la" for la
    using that by (auto simp: h4_def)
  have h4_sec: "h4 sec = Some (sn\<lparr>first_child := first_or pre (Some new)\<rparr>)"
  proof (cases pre)
    case Nil
    then show ?thesis by (simp add: h4_def)
  next
    case (Cons k pre')
    then obtain la where la: "last_or pre None = Some la"
      by (cases "last_or pre None") (auto simp: last_or_None_iff)
    have "la \<noteq> sec" using la_in[OF la] dk by auto
    moreover have "h3 sec = Some sn"
      using hsec new_notin dk pa_in by (auto simp: h3_def h2_def split: option.splits)
    moreover have "sn\<lparr>first_child := first_or pre (Some new)\<rparr> = sn"
      using Cons by (simp add: sn_def ks)
    ultimately show ?thesis using la by (simp add: h4_def)
  qed
  have h4_other: "h4 a = h a"
    if "a \<noteq> new" "a \<noteq> sec" "first_or post None \<noteq> Some a" "last_or pre None \<noteq> Some a" for a
    using that by (auto simp: h4_def h3_def h2_def split: option.splits)
  have A: "is_sibs h4 sec L None pre (Some new)"
  proof (cases "pre = []")
    case True
    then show ?thesis by simp
  next
    case False
    then obtain la where la: "last_or pre None = Some la"
      by (cases "last_or pre None") (auto simp: last_or_None_iff)
    from la_in[OF la] live ks obtain n where n: "h la = Some n" by auto
    show ?thesis
    proof (rule is_sibs_new_end[OF sibs_pre False la n])
      show "h4 la = Some (n\<lparr>next := Some new\<rparr>)" using h4_la[OF la] n by simp
      show "\<forall>a\<in>set (kaddrs pre). a \<noteq> la \<longrightarrow> h4 a = h a"
      proof (intro ballI impI)
        fix a assume a: "a \<in> set (kaddrs pre)" "a \<noteq> la"
        have "first_or post None \<noteq> Some a" using pa_in[of a] a dk by auto
        then show "h4 a = h a" using a dk la by (intro h4_other) auto
      qed
      show "distinct (kaddrs pre)" by (rule dk)
    qed
  qed
  have B2: "is_sibs h4 sec L (Some new) post None"
  proof (cases post)
    case Nil
    then show ?thesis by simp
  next
    case (Cons k post')
    then have pa: "first_or post None = Some (t_addr k)" by simp
    from pa_in[OF pa] live ks obtain n where n: "h (t_addr k) = Some n" by auto
    have "is_sibs h4 sec L (Some new) (k # post') None"
    proof (rule is_sibs_new_prev[OF sibs_post[unfolded Cons] n])
      show "h4 (t_addr k) = Some (n\<lparr>prev := Some new\<rparr>)" using h4_pa[OF pa] n by simp
      show "\<forall>a\<in>set (kaddrs (k # post')). a \<noteq> t_addr k \<longrightarrow> h4 a = h a"
      proof (intro ballI impI)
        fix a assume a: "a \<in> set (kaddrs (k # post'))" "a \<noteq> t_addr k"
        have "last_or pre None \<noteq> Some a" using la_in[of a] a dk Cons by auto
        then show "h4 a = h a" using a dk pa Cons by (intro h4_other) auto
      qed
      show "distinct (kaddrs (k # post'))" using dk Cons by simp
    qed
    then show ?thesis using Cons by simp
  qed
  have B: "is_sibs h4 sec L (last_or pre None) (Tree new nm v False [] # post) None"
    using h4_new B2 by (simp add: nn_def)
  have sibs': "is_sibs h4 sec L None (insert_kid new nm v ks) None"
    unfolding insert_kid_def pre_def[symmetric] post_def[symmetric] is_sibs_append
    using A B by simp
  have node': "is_node h4 par lvl prv nxt (Tree sec snm None f (insert_kid new nm v ks))"
    using h4_sec sibs'
    by (simp add: sn_def L_def insert_kid_def pre_def[symmetric] post_def[symmetric])
  have frame: "\<forall>a. a \<notin> set (addrs (Tree sec snm None f ks)) \<and> a \<noteq> new \<longrightarrow> h4 a = h a"
  proof (intro allI impI)
    fix a assume a: "a \<notin> set (addrs (Tree sec snm None f ks)) \<and> a \<noteq> new"
    have "first_or post None \<noteq> Some a" using pa_in[of a] a ks by auto
    moreover have "last_or pre None \<noteq> Some a" using la_in[of a] a ks by auto
    ultimately show "h4 a = h a" using a by (intro h4_other) auto
  qed
  from run node' frame show ?thesis by blast
qed

lemma t_addr_upd_kids [simp]: "t_addr (upd_kids sec g t) = t_addr t"
  by (cases t) simp

lemma first_or_upd_kids [simp]: "first_or (upd_kids_list sec g ks) e = first_or ks e"
  by (cases ks) simp_all

lemma upd_kids_list_Nil [simp]: "upd_kids_list sec g ks = [] \<longleftrightarrow> ks = []"
  by (cases ks) simp_all

lemma subtrees_addrs:
  "s \<in> set (subtrees t) \<Longrightarrow> set (addrs s) \<subseteq> set (addrs t)"
  "s \<in> set (subtrees_list ks) \<Longrightarrow> set (addrs s) \<subseteq> set (kaddrs ks)"
  by (induction t and ks rule: subtrees_subtrees_list.induct) auto

lemma lift:
  assumes loc: "\<And>par lvl prv nxt. is_node h par lvl prv nxt (Tree sec snm sv sf ks0) \<Longrightarrow>
                  is_node h' par lvl prv nxt (Tree sec snm sv sf (g ks0))"
    and frame: "\<forall>a. a \<notin> set (addrs (Tree sec snm sv sf ks0)) \<and> a \<notin> N \<longrightarrow> h' a = h a"
  shows "is_node h par lvl prv nxt t \<Longrightarrow> distinct (addrs t) \<Longrightarrow> set (addrs t) \<inter> N = {} \<Longrightarrow>
           Tree sec snm sv sf ks0 \<in> set (subtrees t) \<or>
             set (addrs t) \<inter> set (addrs (Tree sec snm sv sf ks0)) = {} \<Longrightarrow>
           is_node h' par lvl prv nxt (upd_kids sec g t)"
    and "is_sibs h pa lvl prv ks e \<Longrightarrow> distinct (kaddrs ks) \<Longrightarrow> set (kaddrs ks) \<inter> N = {} \<Longrightarrow>
           Tree sec snm sv sf ks0 \<in> set (subtrees_list ks) \<or>
             set (kaddrs ks) \<inter> set (addrs (Tree sec snm sv sf ks0)) = {} \<Longrightarrow>
           is_sibs h' pa lvl prv (upd_kids_list sec g ks) e"
proof (induction t and ks arbitrary: par lvl prv nxt and pa lvl prv e rule: subtrees_subtrees_list.induct)
  case (1 a nm v f ks)
  let ?s0 = "Tree sec snm sv sf ks0"
  show ?case
  proof (cases "Tree a nm v f ks = ?s0")
    case True
    then have "upd_kids sec g (Tree a nm v f ks) = Tree sec snm sv sf (g ks0)" by simp
    with True "1.prems"(1) loc show ?thesis by simp
  next
    case False
    have sub: "?s0 \<in> set (subtrees_list ks) \<or> set (kaddrs ks) \<inter> set (addrs ?s0) = {}"
      using "1.prems"(4) False by auto
    have notin: "a \<notin> set (addrs ?s0)"
      using "1.prems"(2,4) False subtrees_addrs(2)[of ?s0 ks] by auto
    then have ne: "a \<noteq> sec" by auto
    have ha: "h' a = h a" using frame notin "1.prems"(3) by auto
    have "is_sibs h' a (lvl + 1) None (upd_kids_list sec g ks) None"
    proof (rule "1.IH")
      show "is_sibs h a (lvl + 1) None ks None" using "1.prems"(1) by simp
      show "distinct (kaddrs ks)" using "1.prems"(2) by simp
      show "set (kaddrs ks) \<inter> N = {}" using "1.prems"(3) by auto
      show "?s0 \<in> set (subtrees_list ks) \<or> set (kaddrs ks) \<inter> set (addrs ?s0) = {}" by (rule sub)
    qed
    then show ?thesis using "1.prems"(1) ha ne by simp
  qed
next
  case 2
  then show ?case by simp
next
  case (3 k ks)
  let ?s0 = "Tree sec snm sv sf ks0"
  have d: "set (addrs k) \<inter> set (kaddrs ks) = {}" using "3.prems"(2) by simp
  have subk: "?s0 \<in> set (subtrees k) \<or> set (addrs k) \<inter> set (addrs ?s0) = {}"
    using "3.prems"(4) d subtrees_addrs(2)[of ?s0 ks] by auto
  have subks: "?s0 \<in> set (subtrees_list ks) \<or> set (kaddrs ks) \<inter> set (addrs ?s0) = {}"
    using "3.prems"(4) d subtrees_addrs(1)[of ?s0 k] by auto
  have "is_node h' (Some pa) lvl prv (first_or ks e) (upd_kids sec g k)"
  proof (rule "3.IH"(1))
    show "is_node h (Some pa) lvl prv (first_or ks e) k" using "3.prems"(1) by simp
    show "distinct (addrs k)" using "3.prems"(2) by simp
    show "set (addrs k) \<inter> N = {}" using "3.prems"(3) by auto
    show "?s0 \<in> set (subtrees k) \<or> set (addrs k) \<inter> set (addrs ?s0) = {}" by (rule subk)
  qed
  moreover have "is_sibs h' pa lvl (Some (t_addr k)) (upd_kids_list sec g ks) e"
  proof (rule "3.IH"(2))
    show "is_sibs h pa lvl (Some (t_addr k)) ks e" using "3.prems"(1) by simp
    show "distinct (kaddrs ks)" using "3.prems"(2) by simp
    show "set (kaddrs ks) \<inter> N = {}" using "3.prems"(3) by auto
    show "?s0 \<in> set (subtrees_list ks) \<or> set (kaddrs ks) \<inter> set (addrs ?s0) = {}" by (rule subks)
  qed
  ultimately show ?case by simp
qed

lemma strcmp_eq [simp]: "strcmp a b = 0 \<longleftrightarrow> a = b"
  by (induction a b rule: strcmp.induct) auto

lemma free_walk_tree:
  "is_node h par lvl prv nxt t \<Longrightarrow> distinct (addrs t) \<Longrightarrow>
     free_walk h (Inl (t_addr t)) = Some (h |` (- set (addrs t)))"
  "is_sibs h pa lvl prv ks e \<Longrightarrow> e = None \<Longrightarrow> distinct (kaddrs ks) \<Longrightarrow>
     free_walk h (Inr (first_or ks None)) = Some (h |` (- set (kaddrs ks)))"
proof (induction t and ks arbitrary: h par lvl prv nxt and h pa lvl prv e rule: subtrees_subtrees_list.induct)
  case (1 a nm v f ks)
  have "free_walk h (Inr (first_or ks None)) = Some (h |` (- set (kaddrs ks)))"
    using 1 by auto
  moreover have "(h |` (- set (kaddrs ks))) a \<noteq> None" using "1.prems" by auto
  moreover have "(h |` (- set (kaddrs ks)))(a := None) = h |` (- set (addrs (Tree a nm v f ks)))"
    by (auto simp: fun_eq_iff restrict_map_def)
  ultimately show ?case using "1.prems"(1)
    by (subst free_walk.simps) auto
next
  case 2
  then show ?case by (subst free_walk.simps) (simp add: restrict_map_def)
next
  case (3 k ks)
  obtain a where a: "t_addr k = a" by simp
  have n: "is_node h (Some pa) lvl prv (first_or ks None) k" and s: "is_sibs h pa lvl (Some a) ks None"
    using "3.prems" a by auto
  have dk: "distinct (addrs k)" "distinct (kaddrs ks)" "set (addrs k) \<inter> set (kaddrs ks) = {}"
    using "3.prems" by auto
  have f1: "free_walk h (Inl a) = Some (h |` (- set (addrs k)))"
    using "3.IH"(1)[OF n dk(1)] a by simp
  have s': "is_sibs (h |` (- set (addrs k))) pa lvl (Some a) ks None"
    by (rule is_node_frame(2)[OF s]) (use dk in \<open>auto simp: restrict_map_def\<close>)
  have f2: "free_walk (h |` (- set (addrs k))) (Inr (first_or ks None))
              = Some ((h |` (- set (addrs k))) |` (- set (kaddrs ks)))"
    using "3.IH"(2)[OF s' _ dk(2)] by simp
  have eq: "(h |` (- set (addrs k))) |` (- set (kaddrs ks)) = h |` (- set (kaddrs (k # ks)))"
    by (auto simp: fun_eq_iff restrict_map_def)
  obtain kn where kn: "h a = Some kn" "next kn = first_or ks None"
    using n a by (cases k) auto
  show ?case
    using f1 f2 eq kn a by (subst free_walk.simps) simp
qed

lemma matches_Tree [simp]:
  "matches nmo rel (Tree a knm v f cs) =
     ((case nmo of None \<Rightarrow> True | Some s \<Rightarrow> knm = s) \<and> ((v \<noteq> None) = rel))"
  by (cases nmo) (simp_all add: matches_def)

lemma next_match_sibs:
  "is_sibs h pa lvl prv ks None \<Longrightarrow>
   next_match h nmo rel (first_or ks None) =
     Some (first_or (dropWhile (\<lambda>k. \<not> matches nmo rel k) ks) None)"
proof (induction ks arbitrary: prv)
  case Nil
  then show ?case by (subst next_match.simps) simp
next
  case (Cons k ks)
  obtain a knm v f cs where k: "k = Tree a knm v f cs" by (cases k)
  from Cons k show ?case
    by (subst next_match.simps) (auto split: option.splits)
qed

lemma unlink:
  assumes node: "is_node h par lvl prv nxt (Tree sec snm None f (dn @ k # rest))"
    and dist: "distinct (addrs (Tree sec snm None f (dn @ k # rest)))"
    and kn: "h (t_addr k) = Some kn"
  shows "\<exists>h3. (\<forall>K :: heap \<Rightarrow> heap option. do {
             h1 \<leftarrow> (case prev kn of
                      Some q \<Rightarrow> poke h q (\<lambda>n. n\<lparr>next := next kn\<rparr>)
                    | None \<Rightarrow> poke h sec (\<lambda>n. n\<lparr>first_child := next kn\<rparr>));
             h2 \<leftarrow> (case next kn of
                      Some q \<Rightarrow> poke h1 q (\<lambda>n. n\<lparr>prev := prev kn\<rparr>)
                    | None \<Rightarrow> Some h1);
             h3 \<leftarrow> profile_free_node h2 (t_addr k);
             K h3
           } = K h3)
         \<and> is_node h3 par lvl prv nxt (Tree sec snm None f (dn @ rest))
         \<and> (\<forall>a. a \<notin> set (addrs (Tree sec snm None f (dn @ k # rest))) \<longrightarrow> h3 a = h a)"
proof -
  define L where "L = lvl + 1"
  define ks where "ks = dn @ k # rest"
  define sn where "sn = \<lparr>magic = PROF_MAGIC_NODE, name = Some snm, value = None, group_level = lvl,
                  final = f, first_child = first_or ks None, parent = par, next = nxt,
                  prev = prv\<rparr>"
  have hsec: "h sec = Some sn" and sibs: "is_sibs h sec L None ks None"
    using node by (simp_all add: sn_def L_def ks_def)
  have sibs_dn: "is_sibs h sec L None dn (Some (t_addr k))"
    and nk: "is_node h (Some sec) L (last_or dn None) (first_or rest None) k"
    and sibs_rest: "is_sibs h sec L (Some (t_addr k)) rest None"
    using sibs unfolding ks_def is_sibs_append by simp_all
  have links: "prev kn = last_or dn None" "next kn = first_or rest None"
  proof -
    obtain a knm v kf cs where k: "k = Tree a knm v kf cs" by (cases k)
    have "h a = Some \<lparr>magic = PROF_MAGIC_NODE, name = Some knm, value = v, group_level = L,
                  final = kf, first_child = first_or cs None, parent = Some sec,
                  next = first_or rest None, prev = last_or dn None\<rparr>"
      using nk unfolding k by simp
    moreover have "h a = Some kn" using kn unfolding k by simp
    ultimately have "kn = \<lparr>magic = PROF_MAGIC_NODE, name = Some knm, value = v, group_level = L,
                  final = kf, first_child = first_or cs None, parent = Some sec,
                  next = first_or rest None, prev = last_or dn None\<rparr>" by simp
    then show "prev kn = last_or dn None" "next kn = first_or rest None" by simp_all
  qed
  have live: "\<forall>a \<in> set (kaddrs ks). h a \<noteq> None"
    using is_node_live(2)[OF sibs] .
  have pa_in: "first_or rest None = Some pa \<Longrightarrow> pa \<in> set (kaddrs rest)" for pa
    by (rule first_or_in_kaddrs)
  have la_in: "last_or dn None = Some la \<Longrightarrow> la \<in> set (kaddrs dn)" for la
    by (rule last_or_None_in_kaddrs)
  have dk: "distinct (kaddrs dn)" "distinct (kaddrs rest)" "distinct (addrs k)"
    "set (kaddrs dn) \<inter> set (kaddrs rest) = {}" "set (kaddrs dn) \<inter> set (addrs k) = {}"
    "set (addrs k) \<inter> set (kaddrs rest) = {}"
    "sec \<notin> set (kaddrs dn)" "sec \<notin> set (kaddrs rest)" "sec \<notin> set (addrs k)"
    using dist by auto
  define h1 where "h1 = (case last_or dn None of
                           Some la \<Rightarrow> h(la \<mapsto> (the (h la))\<lparr>next := first_or rest None\<rparr>)
                         | None \<Rightarrow> h(sec \<mapsto> sn\<lparr>first_child := first_or rest None\<rparr>))"
  define h2 where "h2 = (case first_or rest None of None \<Rightarrow> h1
                         | Some pa \<Rightarrow> h1(pa \<mapsto> (the (h pa))\<lparr>prev := last_or dn None\<rparr>))"
  define h3 where "h3 = h2 |` (- set (addrs k))"
  have p1: "(case prev kn of
               Some q \<Rightarrow> poke h q (\<lambda>n. n\<lparr>next := next kn\<rparr>)
             | None \<Rightarrow> poke h sec (\<lambda>n. n\<lparr>first_child := next kn\<rparr>)) = Some h1"
  proof (cases "last_or dn None")
    case None
    with hsec links show ?thesis by (simp add: h1_def poke_def)
  next
    case (Some la)
    from la_in[OF Some] live obtain n where "h la = Some n" by (auto simp: ks_def)
    with Some links show ?thesis by (simp add: h1_def poke_def)
  qed
  have p2: "(case next kn of
               Some q \<Rightarrow> poke h1 q (\<lambda>n. n\<lparr>prev := prev kn\<rparr>)
             | None \<Rightarrow> Some h1) = Some h2"
  proof (cases "first_or rest None")
    case None
    with links show ?thesis by (simp add: h2_def)
  next
    case (Some pa)
    from pa_in[OF Some] live obtain n where n: "h pa = Some n" by (auto simp: ks_def)
    have "h1 pa = Some n"
      using n pa_in[OF Some] la_in dk by (auto simp: h1_def split: option.splits)
    with Some links n show ?thesis by (simp add: h2_def poke_def)
  qed
  have h2_la: "h2 la = Some ((the (h la))\<lparr>next := first_or rest None\<rparr>)" if "last_or dn None = Some la" for la
    using that dk la_in[OF that] pa_in
    by (auto simp: h2_def h1_def split: option.splits)
  have h2_pa: "h2 pa = Some ((the (h pa))\<lparr>prev := last_or dn None\<rparr>)" if "first_or rest None = Some pa" for pa
    using that by (auto simp: h2_def)
  have h2_other: "h2 a = h a"
    if "a \<noteq> sec" "first_or rest None \<noteq> Some a" "last_or dn None \<noteq> Some a" for a
    using that by (auto simp: h2_def h1_def split: option.splits)
  have h2_sec: "h2 sec = Some (sn\<lparr>first_child := first_or (dn @ rest) None\<rparr>)"
  proof (cases dn)
    case Nil
    then show ?thesis using pa_in dk by (auto simp: h2_def h1_def split: option.splits)
  next
    case (Cons d dn')
    then obtain la where la: "last_or dn None = Some la"
      by (cases "last_or dn None") (auto simp: last_or_None_iff)
    have "la \<noteq> sec" using la_in[OF la] dk by auto
    moreover have "sn\<lparr>first_child := first_or (dn @ rest) None\<rparr> = sn"
      using Cons by (simp add: sn_def ks_def)
    ultimately show ?thesis using la hsec pa_in dk
      by (auto simp: h2_def h1_def split: option.splits)
  qed
  have h2_k: "\<forall>a \<in> set (addrs k). h2 a = h a"
  proof
    fix a assume a: "a \<in> set (addrs k)"
    have "first_or rest None \<noteq> Some a" using pa_in[of a] a dk by auto
    moreover have "last_or dn None \<noteq> Some a" using la_in[of a] a dk by auto
    ultimately show "h2 a = h a" using a dk by (intro h2_other) auto
  qed
  have "is_node h2 (Some sec) L (last_or dn None) (first_or rest None) k"
    by (rule is_node_frame(1)[OF nk h2_k])
  then have p3: "profile_free_node h2 (t_addr k) = Some h3"
    unfolding profile_free_node_def h3_def using dk(3) by (rule free_walk_tree(1))
  have run: "\<forall>K :: heap \<Rightarrow> heap option. do {
             h1 \<leftarrow> (case prev kn of
                      Some q \<Rightarrow> poke h q (\<lambda>n. n\<lparr>next := next kn\<rparr>)
                    | None \<Rightarrow> poke h sec (\<lambda>n. n\<lparr>first_child := next kn\<rparr>));
             h2 \<leftarrow> (case next kn of
                      Some q \<Rightarrow> poke h1 q (\<lambda>n. n\<lparr>prev := prev kn\<rparr>)
                    | None \<Rightarrow> Some h1);
             h3 \<leftarrow> profile_free_node h2 (t_addr k);
             K h3
           } = K h3"
    by (simp only: p1 p2 p3 bind.bind_lunit) simp
  have h3_in: "h3 a = h2 a" if "a \<notin> set (addrs k)" for a
    using that by (simp add: h3_def)
  have A: "is_sibs h3 sec L None dn (first_or rest None)"
  proof (cases "dn = []")
    case True
    then show ?thesis by simp
  next
    case False
    then obtain la where la: "last_or dn None = Some la"
      by (cases "last_or dn None") (auto simp: last_or_None_iff)
    from la_in[OF la] live obtain n where n: "h la = Some n" by (auto simp: ks_def)
    have la_k: "la \<notin> set (addrs k)" using la_in[OF la] dk by auto
    show ?thesis
    proof (rule is_sibs_new_end[OF sibs_dn False la n])
      show "h3 la = Some (n\<lparr>next := first_or rest None\<rparr>)"
        using h2_la[OF la] n h3_in[OF la_k] by simp
      show "\<forall>a\<in>set (kaddrs dn). a \<noteq> la \<longrightarrow> h3 a = h a"
      proof (intro ballI impI)
        fix a assume a: "a \<in> set (kaddrs dn)" "a \<noteq> la"
        have "first_or rest None \<noteq> Some a" using pa_in[of a] a dk by auto
        then have "h2 a = h a" using a dk la by (intro h2_other) auto
        moreover have "a \<notin> set (addrs k)" using a dk by auto
        ultimately show "h3 a = h a" using h3_in by simp
      qed
      show "distinct (kaddrs dn)" by (rule dk)
    qed
  qed
  have B: "is_sibs h3 sec L (last_or dn None) rest None"
  proof (cases rest)
    case Nil
    then show ?thesis by simp
  next
    case (Cons r rest')
    then have pa: "first_or rest None = Some (t_addr r)" by simp
    from pa_in[OF pa] live obtain n where n: "h (t_addr r) = Some n" by (auto simp: ks_def)
    have r_k: "t_addr r \<notin> set (addrs k)" using pa_in[OF pa] dk by auto
    have "is_sibs h3 sec L (last_or dn None) (r # rest') None"
    proof (rule is_sibs_new_prev[OF sibs_rest[unfolded Cons] n])
      show "h3 (t_addr r) = Some (n\<lparr>prev := last_or dn None\<rparr>)"
        using h2_pa[OF pa] n h3_in[OF r_k] by simp
      show "\<forall>a\<in>set (kaddrs (r # rest')). a \<noteq> t_addr r \<longrightarrow> h3 a = h a"
      proof (intro ballI impI)
        fix a assume a: "a \<in> set (kaddrs (r # rest'))" "a \<noteq> t_addr r"
        have "last_or dn None \<noteq> Some a" using la_in[of a] a dk Cons by auto
        then have "h2 a = h a" using a dk pa Cons by (intro h2_other) auto
        moreover have "a \<notin> set (addrs k)" using a dk Cons by auto
        ultimately show "h3 a = h a" using h3_in by simp
      qed
      show "distinct (kaddrs (r # rest'))" using dk Cons by simp
    qed
    then show ?thesis using Cons by simp
  qed
  have sibs': "is_sibs h3 sec L None (dn @ rest) None"
    unfolding is_sibs_append using A B by simp
  have "h3 sec = Some (sn\<lparr>first_child := first_or (dn @ rest) None\<rparr>)"
    using h2_sec h3_in[of sec] dk by simp
  then have node': "is_node h3 par lvl prv nxt (Tree sec snm None f (dn @ rest))"
    using sibs' by (simp add: sn_def L_def)
  have frame: "\<forall>a. a \<notin> set (addrs (Tree sec snm None f (dn @ k # rest))) \<longrightarrow> h3 a = h a"
  proof (intro allI impI)
    fix a assume a: "a \<notin> set (addrs (Tree sec snm None f (dn @ k # rest)))"
    have "first_or rest None \<noteq> Some a" using pa_in[of a] a by auto
    moreover have "last_or dn None \<noteq> Some a" using la_in[of a] a by auto
    ultimately have "h2 a = h a" using a by (intro h2_other) auto
    moreover have "a \<notin> set (addrs k)" using a by auto
    ultimately show "h3 a = h a" using h3_in by simp
  qed
  from run node' frame show ?thesis by blast
qed

lemma remove_loop_sibs:
  "is_node h par lvl prv nxt (Tree sec snm None f (dn @ rest)) \<Longrightarrow>
   distinct (addrs (Tree sec snm None f (dn @ rest))) \<Longrightarrow>
   \<exists>h'. remove_loop h sec nm section_flag (first_or rest None) = Some h'
       \<and> is_node h' par lvl prv nxt (Tree sec snm None f (dn @ del_run nm section_flag rest))
       \<and> (\<forall>a. a \<notin> set (addrs (Tree sec snm None f (dn @ rest))) \<longrightarrow> h' a = h a)"
proof (induction rest arbitrary: dn h)
  case Nil
  then show ?case by (subst remove_loop.simps) simp
next
  case (Cons k rest)
  obtain a knm v kf cs where k: "k = Tree a knm v kf cs" by (cases k)
  have sibs: "is_sibs h sec (lvl + 1) None (dn @ k # rest) None"
    using Cons.prems(1) by simp
  then have nk: "is_node h (Some sec) (lvl + 1) (last_or dn None) (first_or rest None) k"
    unfolding is_sibs_append by simp
  then obtain kn where kn: "h a = Some kn" "name kn = Some knm" "value kn = v"
    "next kn = first_or rest None"
    unfolding k by simp
  show ?case
  proof (cases "knm \<noteq> nm")
    case True
    with kn k Cons.prems(1) show ?thesis
      by (subst remove_loop.simps) simp
  next
    case same: False
    show ?thesis
    proof (cases "(v \<noteq> None) = section_flag")
      case True
      have "\<exists>h'. remove_loop h sec nm section_flag (first_or rest None) = Some h'
         \<and> is_node h' par lvl prv nxt (Tree sec snm None f ((dn @ [k]) @ del_run nm section_flag rest))
         \<and> (\<forall>a. a \<notin> set (addrs (Tree sec snm None f ((dn @ [k]) @ rest))) \<longrightarrow> h' a = h a)"
        by (rule Cons.IH) (use Cons.prems in simp_all)
      moreover have "remove_loop h sec nm section_flag (first_or (k # rest) None)
          = remove_loop h sec nm section_flag (first_or rest None)"
        using kn k same True by (subst remove_loop.simps) auto
      ultimately show ?thesis using same True k by simp
    next
      case False
      from unlink[OF Cons.prems(1,2), of kn] kn k
      obtain h3 where h3: "\<And>K :: heap \<Rightarrow> heap option. do {
             h1 \<leftarrow> (case prev kn of
                      Some q \<Rightarrow> poke h q (\<lambda>n. n\<lparr>next := next kn\<rparr>)
                    | None \<Rightarrow> poke h sec (\<lambda>n. n\<lparr>first_child := next kn\<rparr>));
             h2 \<leftarrow> (case next kn of
                      Some q \<Rightarrow> poke h1 q (\<lambda>n. n\<lparr>prev := prev kn\<rparr>)
                    | None \<Rightarrow> Some h1);
             h3 \<leftarrow> profile_free_node h2 a;
             K h3
           } = K h3"
        and n3: "is_node h3 par lvl prv nxt (Tree sec snm None f (dn @ rest))"
        and f3: "\<forall>x. x \<notin> set (addrs (Tree sec snm None f (dn @ k # rest))) \<longrightarrow> h3 x = h x"
        by auto
      have d3: "distinct (addrs (Tree sec snm None f (dn @ rest)))"
        using Cons.prems(2) by auto
      from Cons.IH[OF n3 d3] obtain h' where
        l: "remove_loop h3 sec nm section_flag (first_or rest None) = Some h'"
        and n': "is_node h' par lvl prv nxt (Tree sec snm None f (dn @ del_run nm section_flag rest))"
        and f': "\<forall>x. x \<notin> set (addrs (Tree sec snm None f (dn @ rest))) \<longrightarrow> h' x = h3 x"
        by blast
      have "remove_loop h sec nm section_flag (first_or (k # rest) None) = Some h'"
        using kn k same False l h3[of "\<lambda>h3. remove_loop h3 sec nm section_flag (first_or rest None)"]
        by (subst remove_loop.simps) auto
      moreover have "\<forall>x. x \<notin> set (addrs (Tree sec snm None f (dn @ k # rest))) \<longrightarrow> h' x = h x"
        using f3 f' by auto
      ultimately show ?thesis using n' same False k by auto
    qed
  qed
qed

lemma remove_local:
  assumes node: "is_node h par lvl prv nxt (Tree sec snm sv f ks)"
    and dist: "distinct (addrs (Tree sec snm sv f ks))"
  shows "if list_ex (matches (Some nm) True) ks
         then \<exists>h'. profile_remove_node h sec nm section_flag = Some (OK, h')
                \<and> is_node h' par lvl prv nxt (Tree sec snm sv f (remove_kids nm section_flag ks))
                \<and> (\<forall>a. a \<notin> set (addrs (Tree sec snm sv f ks)) \<longrightarrow> h' a = h a)
         else profile_remove_node h sec nm section_flag = Some (PROF_NO_RELATION, h)"
proof -
  let ?m = "\<lambda>k. \<not> matches (Some nm) True k"
  define dn where "dn = takeWhile ?m ks"
  define rest where "rest = dropWhile ?m ks"
  have ks: "ks = dn @ rest" by (simp add: dn_def rest_def)
  have sv: "sv = None" if "ks \<noteq> []" using node that by auto
  obtain sn where sn: "h sec = Some sn" "first_child sn = first_or ks None"
    using node by simp
  have sibs: "is_sibs h sec (lvl + 1) None ks None" using node by simp
  have scan: "next_match h (Some nm) True (first_child sn) = Some (first_or rest None)"
    using next_match_sibs[OF sibs, of "Some nm" True] sn by (simp add: rest_def)
  have ex: "list_ex (matches (Some nm) True) ks \<longleftrightarrow> rest \<noteq> []"
    by (auto simp: rest_def list_ex_iff dropWhile_eq_Nil_conv)
  show ?thesis
  proof (cases "rest = []")
    case True
    then show ?thesis using ex sn scan by (simp add: profile_remove_node_def)
  next
    case False
    then have "ks \<noteq> []" using ks by auto
    then have sv': "sv = None" by (rule sv)
    from remove_loop_sibs[OF node[unfolded sv' ks] dist[unfolded sv' ks], of nm section_flag]
    obtain h' where l: "remove_loop h sec nm section_flag (first_or rest None) = Some h'"
      and n': "is_node h' par lvl prv nxt (Tree sec snm None f (dn @ del_run nm section_flag rest))"
      and f': "\<forall>a. a \<notin> set (addrs (Tree sec snm None f (dn @ rest))) \<longrightarrow> h' a = h a"
      by blast
    obtain r where r: "first_or rest None = Some r" using False by (cases rest) auto
    have "profile_remove_node h sec nm section_flag = Some (OK, h')"
      using sn scan l r by (simp add: profile_remove_node_def)
    moreover have "remove_kids nm section_flag ks = dn @ del_run nm section_flag rest"
      by (simp add: remove_kids_def dn_def rest_def)
    moreover note n' f'[folded ks] sv'
    moreover have "list_ex (matches (Some nm) True) ks" using ex False by simp
    ultimately show ?thesis by auto
  qed
qed

lemma is_node_is_tree: "is_node h par lvl prv nxt t \<Longrightarrow> is_tree h t"
  by (cases t) (simp add: is_tree_def)

lemma is_tree_is_node: "is_tree h t \<Longrightarrow> \<exists>par lvl prv nxt. is_node h par lvl prv nxt t"
  by (auto simp: is_tree_def split: option.splits)

lemma is_node_unique:
  "is_node h par lvl prv nxt t \<Longrightarrow> is_node h par' lvl' prv' nxt' t \<Longrightarrow>
     par' = par \<and> lvl' = lvl \<and> prv' = prv \<and> nxt' = nxt"
  by (cases t) simp

lemma subtree_node:
  "is_node h par lvl prv nxt t \<Longrightarrow> s \<in> set (subtrees t) \<Longrightarrow>
     \<exists>par' lvl' prv' nxt'. is_node h par' lvl' prv' nxt' s"
  "is_sibs h pa lvl prv ks e \<Longrightarrow> s \<in> set (subtrees_list ks) \<Longrightarrow>
     \<exists>par' lvl' prv' nxt'. is_node h par' lvl' prv' nxt' s"
proof (induction t and ks arbitrary: par lvl prv nxt and pa lvl prv e rule: subtrees_subtrees_list.induct)
  case (1 a nm v f ks)
  show ?case
  proof (cases "s = Tree a nm v f ks")
    case True
    with "1.prems"(1) show ?thesis by blast
  next
    case False
    then have "s \<in> set (subtrees_list ks)" using "1.prems"(2) by simp
    moreover have "is_sibs h a (lvl + 1) None ks None" using "1.prems"(1) by simp
    ultimately show ?thesis by (rule "1.IH"[rotated])
  qed
next
  case 2
  then show ?case by simp
next
  case (3 k ks)
  show ?case
  proof (cases "s \<in> set (subtrees k)")
    case True
    moreover have "is_node h (Some pa) lvl prv (first_or ks e) k" using "3.prems"(1) by simp
    ultimately show ?thesis by (rule "3.IH"(1)[rotated])
  next
    case False
    then have "s \<in> set (subtrees_list ks)" using "3.prems"(2) by simp
    moreover have "is_sibs h pa lvl (Some (t_addr k)) ks e" using "3.prems"(1) by simp
    ultimately show ?thesis by (rule "3.IH"(2)[rotated])
  qed
qed

lemma subtree_distinct:
  "distinct (addrs t) \<Longrightarrow> s \<in> set (subtrees t) \<Longrightarrow> distinct (addrs s)"
  "distinct (kaddrs ks) \<Longrightarrow> s \<in> set (subtrees_list ks) \<Longrightarrow> distinct (addrs s)"
  by (induction t and ks rule: subtrees_subtrees_list.induct) auto

lemma upd_kids_id:
  "sec \<notin> set (addrs t) \<Longrightarrow> upd_kids sec g t = t"
  "sec \<notin> set (kaddrs ks) \<Longrightarrow> upd_kids_list sec g ks = ks"
  by (induction t and ks rule: subtrees_subtrees_list.induct) auto

lemma upd_kids_addrs:
  assumes g: "\<And>ks. distinct (kaddrs ks) \<Longrightarrow> set (kaddrs ks) \<inter> N = {} \<Longrightarrow>
                distinct (kaddrs (g ks)) \<and> set (kaddrs (g ks)) \<subseteq> set (kaddrs ks) \<union> N"
  shows "distinct (addrs t) \<Longrightarrow> set (addrs t) \<inter> N = {} \<Longrightarrow>
           distinct (addrs (upd_kids sec g t)) \<and> set (addrs (upd_kids sec g t)) \<subseteq> set (addrs t) \<union> N"
    and "distinct (kaddrs ks) \<Longrightarrow> set (kaddrs ks) \<inter> N = {} \<Longrightarrow>
           distinct (kaddrs (upd_kids_list sec g ks)) \<and>
           set (kaddrs (upd_kids_list sec g ks)) \<subseteq> set (kaddrs ks) \<union> N"
proof (induction t and ks rule: subtrees_subtrees_list.induct)
  case (1 a nm v f ks)
  have d: "distinct (kaddrs ks)" "set (kaddrs ks) \<inter> N = {}" "a \<notin> set (kaddrs ks)" "a \<notin> N"
    using "1.prems" by auto
  show ?case
  proof (cases "a = sec")
    case True
    with g[OF d(1,2)] d show ?thesis by auto
  next
    case False
    with "1.IH"[OF d(1,2)] d show ?thesis by auto
  qed
next
  case 2
  then show ?case by simp
next
  case (3 k ks)
  have d: "distinct (addrs k)" "set (addrs k) \<inter> N = {}" "distinct (kaddrs ks)"
    "set (kaddrs ks) \<inter> N = {}" "set (addrs k) \<inter> set (kaddrs ks) = {}"
    using "3.prems" by auto
  note ihk = "3.IH"(1)[OF d(1,2)] and ihs = "3.IH"(2)[OF d(3,4)]
  show ?case
  proof (cases "sec \<in> set (addrs k)")
    case True
    then have "sec \<notin> set (kaddrs ks)" using d by auto
    then have "upd_kids_list sec g ks = ks" by (rule upd_kids_id)
    with ihk d show ?thesis by auto
  next
    case False
    then have "upd_kids sec g k = k" by (rule upd_kids_id)
    with ihs d show ?thesis by auto
  qed
qed

lemma kaddrs_ins:
  "kaddrs (insert_kid new nm v ks) =
     kaddrs (takeWhile (name_le nm) ks) @ new # kaddrs (dropWhile (name_le nm) ks)"
  by (simp add: insert_kid_def)

lemma kaddrs_take_drop: "kaddrs (takeWhile P ks) @ kaddrs (dropWhile P ks) = kaddrs ks"
  by (simp flip: kaddrs_append)

lemma ins_addrs:
  assumes "distinct (kaddrs ks)" "set (kaddrs ks) \<inter> {new} = {}"
  shows "distinct (kaddrs (insert_kid new nm v ks)) \<and> set (kaddrs (insert_kid new nm v ks)) \<subseteq> set (kaddrs ks) \<union> {new}"
proof -
  have "distinct (kaddrs (takeWhile (name_le nm) ks) @ kaddrs (dropWhile (name_le nm) ks))"
    "set (kaddrs (takeWhile (name_le nm) ks) @ kaddrs (dropWhile (name_le nm) ks)) = set (kaddrs ks)"
    using assms by (simp_all only: kaddrs_take_drop)
  with assms show ?thesis unfolding kaddrs_ins by auto
qed

lemma del_run_addrs:
  "set (kaddrs (del_run nm fl ks)) \<subseteq> set (kaddrs ks)"
  "distinct (kaddrs ks) \<Longrightarrow> distinct (kaddrs (del_run nm fl ks))"
  by (induction ks) auto

lemma del_addrs:
  assumes "distinct (kaddrs ks)" "set (kaddrs ks) \<inter> {} = {}"
  shows "distinct (kaddrs (remove_kids nm fl ks)) \<and> set (kaddrs (remove_kids nm fl ks)) \<subseteq> set (kaddrs ks) \<union> {}"
proof -
  let ?P = "\<lambda>k. \<not> matches (Some nm) True k"
  have a: "distinct (kaddrs (takeWhile ?P ks) @ kaddrs (dropWhile ?P ks))"
    "set (kaddrs (takeWhile ?P ks) @ kaddrs (dropWhile ?P ks)) = set (kaddrs ks)"
    using assms by (simp_all only: kaddrs_take_drop)
  have b: "set (kaddrs (del_run nm fl (dropWhile ?P ks))) \<subseteq> set (kaddrs (dropWhile ?P ks))"
    "distinct (kaddrs (del_run nm fl (dropWhile ?P ks)))"
    using a del_run_addrs[where nm = nm and fl = fl and ks = "dropWhile ?P ks"] by auto
  from a b show ?thesis unfolding remove_kids_def kaddrs_append by auto
qed

lemma add_ok_mem:
  assumes "profile_add_node h m sec nm v = Some (OK, h', r)"
  shows "\<exists>new. r = Some new \<and> node_mem m = Some new \<and> h new = None \<and> name_mem m \<and> (v \<noteq> None \<longrightarrow> value_mem m)"
  using assms
  by (auto simp: profile_add_node_def profile_create_node_def bind_eq_Some_conv
           split: option.splits if_splits prod.splits)

lemma addr_subtree: "a \<in> set (addrs t) \<Longrightarrow> \<exists>s \<in> set (subtrees t). t_addr s = a"
  by (auto simp: addrs_def)

lemma add_tree:
  assumes t: "is_tree h t" "distinct (addrs t)"
    and sec: "sec \<in> set (addrs t)"
    and ok: "profile_add_node h m sec nm v = Some (OK, h', r)"
  shows "\<exists>new. r = Some new \<and> h new = None
           \<and> is_tree h' (upd_kids sec (insert_kid new nm v) t)
           \<and> distinct (addrs (upd_kids sec (insert_kid new nm v) t))"
proof -
  from t(1) obtain par lvl prv nxt where n: "is_node h par lvl prv nxt t"
    by (blast dest: is_tree_is_node)
  from sec obtain s0 where s0: "s0 \<in> set (subtrees t)" "t_addr s0 = sec"
    by (blast dest: addr_subtree)
  obtain snm sv f ks where s0_eq: "s0 = Tree sec snm sv f ks"
    using s0(2) by (cases s0) auto
  from subtree_node(1)[OF n s0(1)] obtain par0 lvl0 prv0 nxt0
    where n0: "is_node h par0 lvl0 prv0 nxt0 (Tree sec snm sv f ks)"
    unfolding s0_eq by blast
  have d0: "distinct (addrs (Tree sec snm sv f ks))"
    using subtree_distinct(1)[OF t(2) s0(1)] unfolding s0_eq .
  have sv: "sv = None"
  proof (rule ccontr)
    assume "sv \<noteq> None"
    with n0 have "profile_add_node h m sec nm v = Some (PROF_ADD_NOT_SECTION, h, None)"
      by (auto simp: profile_add_node_def)
    with ok show False by simp
  qed
  from add_ok_mem[OF ok] obtain new where r: "r = Some new" and mem: "node_mem m = Some new"
    "name_mem m" "v \<noteq> None \<longrightarrow> value_mem m" and fresh: "h new = None"
    by blast
  from add_local[OF n0[unfolded sv] d0[unfolded sv] fresh mem, of nm] ok
  have n0': "is_node h' par0 lvl0 prv0 nxt0 (Tree sec snm None f (insert_kid new nm v ks))"
    and fr: "\<forall>a. a \<notin> set (addrs (Tree sec snm None f ks)) \<and> a \<notin> {new} \<longrightarrow> h' a = h a"
    by auto
  have new_notin: "set (addrs t) \<inter> {new} = {}"
    using is_node_live(1)[OF n] fresh by auto
  have "is_node h' par lvl prv nxt (upd_kids sec (insert_kid new nm v) t)"
  proof (rule lift(1)[where N = "{new}" and h = h, OF _ fr n t(2) new_notin])
    fix par' lvl' prv' nxt'
    assume "is_node h par' lvl' prv' nxt' (Tree sec snm None f ks)"
    from is_node_unique[OF n0[unfolded sv] this] n0'
    show "is_node h' par' lvl' prv' nxt' (Tree sec snm None f (insert_kid new nm v ks))" by simp
  next
    show "Tree sec snm None f ks \<in> set (subtrees t) \<or>
          set (addrs t) \<inter> set (addrs (Tree sec snm None f ks)) = {}"
      using s0(1) s0_eq sv by simp
  qed
  then have "is_tree h' (upd_kids sec (insert_kid new nm v) t)" by (rule is_node_is_tree)
  moreover have "distinct (addrs (upd_kids sec (insert_kid new nm v) t))"
    using upd_kids_addrs(1)[where g = "insert_kid new nm v" and N = "{new}", OF ins_addrs t(2) new_notin]
    by simp
  ultimately show ?thesis using r fresh by blast
qed

lemma remove_tree:
  assumes t: "is_tree h t" "distinct (addrs t)"
    and sec: "sec \<in> set (addrs t)"
    and ok: "profile_remove_node h sec nm section_flag = Some (OK, h')"
  shows "is_tree h' (upd_kids sec (remove_kids nm section_flag) t)
           \<and> distinct (addrs (upd_kids sec (remove_kids nm section_flag) t))"
proof -
  from t(1) obtain par lvl prv nxt where n: "is_node h par lvl prv nxt t"
    by (blast dest: is_tree_is_node)
  from sec obtain s0 where s0: "s0 \<in> set (subtrees t)" "t_addr s0 = sec"
    by (blast dest: addr_subtree)
  obtain snm sv f ks where s0_eq: "s0 = Tree sec snm sv f ks"
    using s0(2) by (cases s0) auto
  from subtree_node(1)[OF n s0(1)] obtain par0 lvl0 prv0 nxt0
    where n0: "is_node h par0 lvl0 prv0 nxt0 (Tree sec snm sv f ks)"
    unfolding s0_eq by blast
  have d0: "distinct (addrs (Tree sec snm sv f ks))"
    using subtree_distinct(1)[OF t(2) s0(1)] unfolding s0_eq .
  from remove_local[OF n0 d0, of nm section_flag] ok
  have n0': "is_node h' par0 lvl0 prv0 nxt0 (Tree sec snm sv f (remove_kids nm section_flag ks))"
    and fr: "\<forall>a. a \<notin> set (addrs (Tree sec snm sv f ks)) \<and> a \<notin> {} \<longrightarrow> h' a = h a"
    by (auto split: if_splits)
  have "is_node h' par lvl prv nxt (upd_kids sec (remove_kids nm section_flag) t)"
  proof (rule lift(1)[where N = "{}" and h = h, OF _ fr n t(2)])
    fix par' lvl' prv' nxt'
    assume "is_node h par' lvl' prv' nxt' (Tree sec snm sv f ks)"
    from is_node_unique[OF n0 this] n0'
    show "is_node h' par' lvl' prv' nxt' (Tree sec snm sv f (remove_kids nm section_flag ks))" by simp
  next
    show "Tree sec snm sv f ks \<in> set (subtrees t) \<or>
          set (addrs t) \<inter> set (addrs (Tree sec snm sv f ks)) = {}"
      using s0(1) s0_eq by simp
  qed simp
  then have "is_tree h' (upd_kids sec (remove_kids nm section_flag) t)" by (rule is_node_is_tree)
  moreover have "distinct (addrs (upd_kids sec (remove_kids nm section_flag) t))"
    using upd_kids_addrs(1)[where g = "remove_kids nm section_flag" and N = "{}", OF del_addrs t(2)]
    by simp
  ultimately show ?thesis by blast
qed

section \<open>Sequences of operations keep the tree\<close>

lemma verify_tree: "is_tree h t \<Longrightarrow> profile_verify_node h (t_addr t) = Some OK"
  unfolding profile_verify_node_def by (blast dest: is_tree_is_node intro: verify_ok(1))

lemma apply_op_inv:
  assumes "is_tree h t" "distinct (addrs t)" "apply_op (h, t) x = Some (h', t')"
  shows "is_tree h' t' \<and> distinct (addrs t') \<and> t_addr t' = t_addr t"
proof (cases x)
  case (Add sec m nm v)
  with assms(3) obtain new where ok: "profile_add_node h m sec nm v = Some (OK, h', Some new)"
    and sec: "sec \<in> set (addrs t)" and t': "t' = upd_kids sec (insert_kid new nm v) t"
    by (auto split: if_splits option.splits errcode.splits)
  from add_tree[OF assms(1,2) sec ok] t' show ?thesis by auto
next
  case (Remove sec nm fl)
  with assms(3) have ok: "profile_remove_node h sec nm fl = Some (OK, h')"
    and sec: "sec \<in> set (addrs t)" and t': "t' = upd_kids sec (remove_kids nm fl) t"
    by (auto split: if_splits option.splits errcode.splits)
  from remove_tree[OF assms(1,2) sec ok] t' show ?thesis by auto
qed

lemma run_ops_inv:
  "is_tree h t \<Longrightarrow> distinct (addrs t) \<Longrightarrow> run_ops (h, t) ops = Some ss \<Longrightarrow>
     \<forall>(h', t') \<in> set ss. is_tree h' t' \<and> t_addr t' = t_addr t"
proof (induction ops arbitrary: h t ss)
  case Nil
  then show ?case by simp
next
  case (Cons x xs)
  from Cons.prems(3) obtain h1 t1 ss1 where s1: "apply_op (h, t) x = Some (h1, t1)"
    and r: "run_ops (h1, t1) xs = Some ss1" and ss: "ss = (h1, t1) # ss1"
    by (auto split: option.splits)
  from apply_op_inv[OF Cons.prems(1,2) s1]
  have i: "is_tree h1 t1" "distinct (addrs t1)" "t_addr t1 = t_addr t" by auto
  from Cons.IH[OF i(1,2) r] i ss show ?case by auto
qed

lemmas ex_defs = h_root_def t_root_def h_ac_def t_ac_def h_sec_rel_def h_sec_def h_rel_def h_dead_def
  h_x_def t_x_def lone_def kid_def mem_def

lemmas run_defs = profile_add_node_def add_scan.simps profile_create_node_def
  poke_def zero_node_def children_def chain_addrs.simps profile_remove_node_def next_match.simps remove_loop.simps
  profile_free_node_def free_walk.simps is_tree_def addrs_def

section \<open>The place of a new node\<close>

lemma chain_addrs_sibs:
  "is_sibs h pa lvl prv ks None \<Longrightarrow> chain_addrs h (first_or ks None) = Some (map t_addr ks)"
proof (induction ks arbitrary: prv)
  case Nil
  then show ?case by (subst chain_addrs.simps) simp
next
  case (Cons k ks)
  obtain a knm v f cs where k: "k = Tree a knm v f cs" by (cases k)
  from Cons k show ?case by (subst chain_addrs.simps) auto
qed

lemma children_node:
  "is_node h par lvl prv nxt (Tree a nm v f ks) \<Longrightarrow> children h a = Some (map t_addr ks)"
  using chain_addrs_sibs[of h a "lvl + 1" None ks] by (simp add: children_def)

lemma add_tree_at:
  assumes t: "is_tree h t" "distinct (addrs t)"
    and s0: "Tree sec snm sv f ks \<in> set (subtrees t)"
    and ok: "profile_add_node h m sec nm v = Some (OK, h', r)"
  shows "\<exists>new par0 lvl0 prv0 nxt0. r = Some new \<and> sv = None
           \<and> is_node h par0 lvl0 prv0 nxt0 (Tree sec snm None f ks)
           \<and> is_node h' par0 lvl0 prv0 nxt0 (Tree sec snm None f (insert_kid new nm v ks))"
proof -
  from t(1) obtain par lvl prv nxt where n: "is_node h par lvl prv nxt t"
    by (blast dest: is_tree_is_node)
  from subtree_node(1)[OF n s0] obtain par0 lvl0 prv0 nxt0
    where n0: "is_node h par0 lvl0 prv0 nxt0 (Tree sec snm sv f ks)"
    by blast
  have d0: "distinct (addrs (Tree sec snm sv f ks))"
    using subtree_distinct(1)[OF t(2) s0] .
  have sv: "sv = None"
  proof (rule ccontr)
    assume "sv \<noteq> None"
    with n0 have "profile_add_node h m sec nm v = Some (PROF_ADD_NOT_SECTION, h, None)"
      by (auto simp: profile_add_node_def)
    with ok show False by simp
  qed
  from add_ok_mem[OF ok] obtain new where r: "r = Some new" and mem: "node_mem m = Some new"
    "name_mem m" "v \<noteq> None \<longrightarrow> value_mem m" and fresh: "h new = None"
    by blast
  from add_local[OF n0[unfolded sv] d0[unfolded sv] fresh mem, of nm] ok
  have "is_node h' par0 lvl0 prv0 nxt0 (Tree sec snm None f (insert_kid new nm v ks))"
    by auto
  with r sv n0 show ?thesis by blast
qed

lemma of_char_eq: "(of_char x :: nat) = of_char y \<longleftrightarrow> x = y"
  by (metis char_of_char)

lemma strcmp_le_trans: "strcmp a b \<le> 0 \<Longrightarrow> strcmp b c \<le> 0 \<Longrightarrow> strcmp a c \<le> 0"
proof (induction a b arbitrary: c rule: strcmp.induct)
  case 1
  then show ?case by simp
next
  case (2 y ys)
  then show ?case by (cases c) auto
next
  case (3 x xs)
  then show ?case by simp
next
  case (4 x xs y ys)
  show ?case
  proof (cases c)
    case Nil
    with 4 show ?thesis by (auto split: if_splits)
  next
    case (Cons z zs)
    with 4 show ?thesis
      by (auto split: if_splits simp: of_char_eq dest: less_trans)
  qed
qed


lemma rev_split:
  assumes "\<forall>x\<in>set xs. P x" "\<forall>y\<in>set ys. \<not> P y"
  shows "rev (dropWhile (\<lambda>k. \<not> P k) (rev (xs @ ys))) = xs"
    and "rev (takeWhile (\<lambda>k. \<not> P k) (rev (xs @ ys))) = ys"
proof -
  have d: "dropWhile (\<lambda>k. \<not> P k) (rev xs) = rev xs"
    using assms(1) by (cases xs rule: rev_cases) simp_all
  have t: "takeWhile (\<lambda>k. \<not> P k) (rev xs) = []"
    using assms(1) by (cases xs rule: rev_cases) simp_all
  have "dropWhile (\<lambda>k. \<not> P k) (rev ys @ rev xs) = dropWhile (\<lambda>k. \<not> P k) (rev xs)"
    using assms(2) by (intro dropWhile_append2) simp
  with d show "rev (dropWhile (\<lambda>k. \<not> P k) (rev (xs @ ys))) = xs" by simp
  have "takeWhile (\<lambda>k. \<not> P k) (rev ys @ rev xs) = rev ys @ takeWhile (\<lambda>k. \<not> P k) (rev xs)"
    using assms(2) by (intro takeWhile_append2) simp
  with t show "rev (takeWhile (\<lambda>k. \<not> P k) (rev (xs @ ys))) = ys" by simp
qed

lemma sorted_dropWhile_le:
  assumes "name_sorted ks"
  shows "\<forall>k \<in> set (dropWhile (name_le nm) ks). \<not> name_le nm k"
  using assms
proof (induction ks)
  case Nil
  then show ?case by simp
next
  case (Cons d ks)
  show ?case
  proof (cases "name_le nm d")
    case True
    have "name_sorted ks" using Cons.prems by (simp add: name_sorted_def)
    then have ih: "\<forall>k \<in> set (dropWhile (name_le nm) ks). \<not> name_le nm k" by (rule Cons.IH)
    have "dropWhile (name_le nm) (d # ks) = dropWhile (name_le nm) ks"
      using True by simp
    then show ?thesis using ih by (simp only:)
  next
    case False
    have "\<not> name_le nm k" if "k \<in> set ks" for k
    proof
      assume "name_le nm k"
      then have kn: "strcmp (t_name k) nm \<le> 0" by (simp add: name_le_def)
      have "strcmp (t_name d) (t_name k) \<le> 0"
        using Cons.prems that by (simp add: name_sorted_def)
      then have "strcmp (t_name d) nm \<le> 0"
        using kn by (rule strcmp_le_trans)
      with False show False by (simp add: name_le_def)
    qed
    moreover have "dropWhile (name_le nm) (d # ks) = d # ks"
      using False by simp
    ultimately show ?thesis using False by (simp only: set_simps) blast
  qed
qed

lemma sorted_insert_kid:
  assumes "name_sorted ks"
  shows "insert_kid new nm v ks = after_last_le new nm v ks"
proof -
  let ?xs = "takeWhile (name_le nm) ks" and ?ys = "dropWhile (name_le nm) ks"
  have "\<forall>x\<in>set ?xs. name_le nm x" by (auto dest: set_takeWhileD)
  from rev_split[OF this sorted_dropWhile_le[OF assms, of nm]]
  have "rev (dropWhile (\<lambda>k. \<not> name_le nm k) (rev ks)) = ?xs"
    "rev (takeWhile (\<lambda>k. \<not> name_le nm k) (rev ks)) = ?ys"
    unfolding takeWhile_dropWhile_id by blast+
  then show ?thesis unfolding insert_kid_def after_last_le_def by (simp only:)
qed

section \<open>The scanners on a section of a tree\<close>

lemma first_or_dropWhile_filter:
  "first_or (dropWhile (\<lambda>k. \<not> P k) ks) e = first_or (filter P ks) e"
  by (induction ks) auto

lemma filter_dropWhile:
  "dropWhile (\<lambda>k. \<not> P k) ks = c # post \<Longrightarrow> filter P ks = c # filter P post"
proof (induction ks)
  case Nil
  then show ?case by simp
next
  case (Cons k ks)
  then show ?case by (cases "P k") auto
qed

lemma filter_dropWhile_Nil:
  "dropWhile (\<lambda>k. \<not> P k) ks = [] \<Longrightarrow> filter P ks = []"
  by (induction ks) (auto split: if_splits)

lemma find_node_spec:
  assumes sec: "is_node h par lvl prv nxt (Tree sec snm sv f (dn @ rest))"
    and st: "(state = None \<and> dn = []) \<or> (state = first_or rest None \<and> rest \<noteq> [])"
  shows "find_node rel nf h sec nmo state =
     (case filter (matches nmo rel) rest of
        [] \<Rightarrow> Some (nf, None, None)
      | c # cs \<Rightarrow> Some (OK, first_or cs None, Some (t_addr c)))"
proof -
  let ?m = "\<lambda>k. \<not> matches nmo rel k"
  obtain sn where sn: "h sec = Some sn" "magic sn = PROF_MAGIC_NODE"
    "first_child sn = first_or (dn @ rest) None"
    using sec by simp
  have sibs: "is_sibs h sec (lvl + 1) (last_or dn None) rest None"
    using sec by (simp add: is_sibs_append)
  have start: "(case state of
                  None \<Rightarrow> Some (OK, first_child sn)
                | Some sa \<Rightarrow> map_option (\<lambda>n. if magic n \<noteq> PROF_MAGIC_NODE
                                              then (PROF_MAGIC_NODE, state) else (OK, state)) (h sa))
               = Some (OK, first_or rest None)"
  proof (cases state)
    case None
    with st sn show ?thesis by (cases rest) auto
  next
    case (Some sa)
    with st obtain k rest' where r: "rest = k # rest'" "sa = t_addr k" by (cases rest) auto
    obtain a knm v kf cs where k: "k = Tree a knm v kf cs" by (cases k)
    from sibs r k Some st show ?thesis by auto
  qed
  have scan: "next_match h nmo rel (first_or rest None) = Some (first_or (dropWhile ?m rest) None)"
    by (rule next_match_sibs[OF sibs])
  show ?thesis
  proof (cases "dropWhile ?m rest")
    case Nil
    then have fl: "filter (matches nmo rel) rest = []" by (rule filter_dropWhile_Nil)
    have scan': "next_match h nmo rel (first_or rest None) = Some None"
      using scan unfolding Nil by simp
    show ?thesis unfolding find_node_def fl using sn(1,2) start scan' by simp
  next
    case (Cons c post)
    have fl: "filter (matches nmo rel) rest = c # filter (matches nmo rel) post"
      using Cons by (rule filter_dropWhile)
    have rest: "rest = takeWhile ?m rest @ c # post"
      using Cons takeWhile_dropWhile_id[of ?m rest] by simp
    have "is_sibs h sec (lvl + 1) (last_or (takeWhile ?m rest) (last_or dn None)) (c # post) None"
      using sibs by (subst (asm) rest) (simp add: is_sibs_append)
    then have nc: "is_node h (Some sec) (lvl + 1) (last_or (takeWhile ?m rest) (last_or dn None))
                     (first_or post None) c"
      and sp: "is_sibs h sec (lvl + 1) (Some (t_addr c)) post None" by simp_all
    obtain pn where pn: "h (t_addr c) = Some pn" "next pn = first_or post None"
      using nc by (cases c) auto
    have scan2: "next_match h nmo rel (first_or post None)
                   = Some (first_or (filter (matches nmo rel) post) None)"
      using next_match_sibs[OF sp, of nmo rel] by (simp add: first_or_dropWhile_filter)
    have scan': "next_match h nmo rel (first_or rest None) = Some (Some (t_addr c))"
      using scan unfolding Cons by simp
    show ?thesis unfolding find_node_def fl using sn(1,2) start scan' pn scan2 by simp
  qed
qed


lemma find_node_next:
  assumes sec: "is_node h par lvl prv nxt (Tree sec snm sv f (dn @ rest))"
    and st: "(state = None \<and> dn = []) \<or> (state = first_or rest None \<and> rest \<noteq> [])"
    and ok: "find_node rel nf h sec nmo state = Some (OK, Some a, p)"
  shows "(\<exists>k \<in> set rest. t_addr k = a \<and> matches nmo rel k)
         \<and> (\<exists>st' c'. find_node rel nf h sec nmo (Some a) = Some (OK, st', Some a))"
proof -
  let ?P = "matches nmo rel"
  from find_node_spec[OF sec st, of rel nf nmo] ok
  obtain c cs0 where fl0: "filter ?P rest = c # cs0" and a0: "first_or cs0 None = Some a"
    by (auto split: list.splits)
  from a0 obtain c' cs where "cs0 = c' # cs" and a: "a = t_addr c'"
    by (cases cs0) auto
  with fl0 have fl: "filter ?P rest = c # c' # cs" by simp
  from fl obtain us vs where r1: "rest = us @ c # vs" and f1: "c' # cs = filter ?P vs"
    unfolding filter_eq_Cons_iff by blast
  from f1[symmetric] obtain us' vs' where r2: "vs = us' @ c' # vs'" and m: "?P c'"
    unfolding filter_eq_Cons_iff by blast
  have ks: "dn @ rest = (dn @ us @ c # us') @ (c' # vs')" by (simp add: r1 r2)
  have st': "(Some a = None \<and> dn @ us @ c # us' = []) \<or>
             (Some a = first_or (c' # vs') None \<and> c' # vs' \<noteq> [])"
    by (simp add: a)
  from find_node_spec[OF sec[unfolded ks] st', of rel nf nmo] m a
  have "\<exists>st'. find_node rel nf h sec nmo (Some a) = Some (OK, st', Some a)" by simp
  moreover have "c' \<in> set rest" by (simp add: r1 r2)
  ultimately show ?thesis using a m by blast
qed

lemma sibs_member:
  "is_sibs h pa lvl prv ks e \<Longrightarrow> c \<in> set ks \<Longrightarrow>
     \<exists>n. h (t_addr c) = Some n \<and> name n = Some (t_name c) \<and> value n = t_value c"
proof (induction ks arbitrary: prv)
  case Nil
  then show ?case by simp
next
  case (Cons k ks)
  show ?case
  proof (cases "c = k")
    case True
    with Cons.prems(1) show ?thesis by (cases k) auto
  next
    case False
    with Cons show ?thesis by auto
  qed
qed

lemma find_node_out:
  assumes sec: "is_node h par lvl prv nxt (Tree sec snm sv f (dn @ rest))"
    and st: "(state = None \<and> dn = []) \<or> (state = first_or rest None \<and> rest \<noteq> [])"
  shows "profile_find_node_relation h sec nmo state =
           (case filter (matches nmo True) rest of
              [] \<Rightarrow> Some (PROF_NO_RELATION, None, None)
            | c # cs \<Rightarrow> Some (OK, first_or cs None, Some (Some (t_name c), t_value c)))"
    and "profile_find_node_subsection h sec nmo state =
           (case filter (matches nmo False) rest of
              [] \<Rightarrow> Some (PROF_NO_SECTION, None, None)
            | c # cs \<Rightarrow> Some (OK, first_or cs None, Some (Some (t_name c), t_addr c)))"
proof -
  have sibs: "is_sibs h sec (lvl + 1) (last_or dn None) rest None"
    using sec by (simp add: is_sibs_append)
  have out: "\<exists>n. h (t_addr c) = Some n \<and> name n = Some (t_name c) \<and> value n = t_value c"
    if "filter (matches nmo rel) rest = c # cs" for rel c cs
  proof -
    have "c \<in> set (filter (matches nmo rel) rest)" unfolding that by simp
    then have "c \<in> set rest" by simp
    with sibs show ?thesis by (rule sibs_member)
  qed
  show "profile_find_node_relation h sec nmo state =
           (case filter (matches nmo True) rest of
              [] \<Rightarrow> Some (PROF_NO_RELATION, None, None)
            | c # cs \<Rightarrow> Some (OK, first_or cs None, Some (Some (t_name c), t_value c)))"
    unfolding profile_find_node_relation_def find_node_spec[OF sec st]
    using out[of True] by (cases "filter (matches nmo True) rest") auto
  show "profile_find_node_subsection h sec nmo state =
           (case filter (matches nmo False) rest of
              [] \<Rightarrow> Some (PROF_NO_SECTION, None, None)
            | c # cs \<Rightarrow> Some (OK, first_or cs None, Some (Some (t_name c), t_addr c)))"
    unfolding profile_find_node_subsection_def find_node_spec[OF sec st]
    using out[of False] by (cases "filter (matches nmo False) rest") auto
qed

section \<open>Every call of the iterator\<close>

lemmas iter_defs = start_ak_def outputs_def two_files_def three_files_def roots_def h_final_def
  h_one_three_def h_fall_through_def reload_after_two_def fall_through_then_reload_def
  no_flags_def a_profile_def no_reload_def reload_def lone_def mem_def
  one_file_def h_a_j_def it_example_def s_example_def

lemmas iter_run = profile_node_iterator_def get_new_file.simps iter_scan.simps walk_names.simps
  next_match.simps profile_node_iterator_free_def profile_node_iterator_create_def set_iter_def
  profile_add_node_def add_scan.simps profile_create_node_def poke_def zero_node_def
  profile_make_node_final_def

lemma get_new_file_result:
  assumes "get_new_file U s i k = Some y"
  shows "\<forall>it. iters s i = Some it \<and> iter_magic it = PROF_MAGIC_ITERATOR \<longrightarrow> call_result_ok s i y"
proof (rule get_new_file.raw_induct[where P = "\<lambda>U s i k y. \<forall>it. iters s i = Some it \<and>
          iter_magic it = PROF_MAGIC_ITERATOR \<longrightarrow> call_result_ok s i y", OF _ assms], goal_cases)
  case (1 get_new_file U s i k y)
  show ?case
  proof (intro allI impI)
    fix it assume it: "iters s i = Some it \<and> iter_magic it = PROF_MAGIC_ITERATOR"
    show "call_result_ok s i y"
    proof (cases "iter_node it")
      case None
      show ?thesis
      proof (cases "iter_file it = None \<or> final_seen (iter_flags it)")
        case True
        with 1(2) it None show ?thesis
          by (auto simp: profile_node_iterator_free_def call_result_ok_def)
      next
        case False
        then obtain f where f: "iter_file it = Some f" by auto
        obtain retval h1 fs1 where u: "U (nodes s) (files s) f = (retval, h1, fs1)"
          by (cases "U (nodes s) (files s) f") auto
        show ?thesis
        proof (cases "retval = OK")
          case ne: False
          with 1(2) it None False f u show ?thesis
            by (auto simp: profile_node_iterator_free_def call_result_ok_def)
        next
          case True
          with 1(2) it None False f u obtain fl r sec cpp seen where
            w: "fs1 f = Some fl" "root fl = Some r"
               "walk_names h1 (iter_done_idx it) (iter_names it) r (final_seen (iter_flags it))
                  = Some (sec, cpp, seen)"
            by (auto split: option.splits)
          show ?thesis
          proof (cases sec)
            case sn: None
            let ?s' = "set_iter (s\<lparr>nodes := h1, files := fs1\<rparr>) i
                        (it\<lparr>iter_file_serial := upd_serial fl,
                            iter_flags := (iter_flags it)\<lparr>final_seen := seen\<rparr>,
                            iter_file := file_next fl\<rparr>)"
            have "get_new_file U ?s' i 0 = Some y"
              using 1(2) it None False f u True w sn by simp
            from 1(1)[OF this] it have "call_result_ok ?s' i y"
              by (simp add: set_iter_def)
            then show ?thesis using it by (auto simp: call_result_ok_def set_iter_def)
          next
            case (Some sa)
            with 1(2) it None False f u True w obtain sn where sn: "h1 sa = Some sn"
              by (auto split: option.splits)
            let ?s' = "set_iter (s\<lparr>nodes := h1, files := fs1\<rparr>) i
                         (it\<lparr>iter_file_serial := upd_serial fl,
                             iter_flags := (iter_flags it)\<lparr>final_seen := seen\<rparr>,
                             iter_name := (case cpp of [] \<Rightarrow> None | c # _ \<Rightarrow> Some c),
                             iter_node := first_child sn\<rparr>)"
            have "get_new_file U ?s' i k = Some y"
              using 1(2) it None False f u True w Some sn by simp
            from 1(1)[OF this] it have "call_result_ok ?s' i y"
              by (simp add: set_iter_def)
            then show ?thesis using it by (auto simp: call_result_ok_def set_iter_def)
          qed
        qed
      qed
    next
      case (Some a)
      with 1(2) it obtain p where
        sc: "iter_scan (nodes s) (iter_name it) (iter_flags it) (Some a) k = Some p"
        by (auto split: option.splits)
      show ?thesis
      proof (cases p)
        case None
        with 1(2) it Some sc obtain fl where fl: "Option.bind (iter_file it) (files s) = Some fl"
          by (auto split: option.splits)
        let ?s' = "set_iter s i (it\<lparr>iter_num := iter_num it + 1, iter_file := file_next fl,
                                  iter_node := None\<rparr>)"
        have "get_new_file U ?s' i 0 = Some y"
          using 1(2) it Some sc None fl by simp
        from 1(1)[OF this] it have "call_result_ok ?s' i y"
          by (simp add: set_iter_def)
        then show ?thesis using it by (auto simp: call_result_ok_def set_iter_def)
      next
        case found: (Some pa)
        with 1(2) it Some sc show ?thesis
          by (auto simp: call_result_ok_def set_iter_def split: option.splits if_splits)
      qed
    qed
  qed
qed

lemma iterator_call_result:
  assumes "profile_node_iterator U s (Some i) = Some y"
    and "iters s i = Some it" and "iter_magic it = PROF_MAGIC_ITERATOR"
  shows "call_result_ok s i y"
proof (cases "iter_node it")
  case None
  with assms have "get_new_file U s i 0 = Some y" by (simp add: profile_node_iterator_def)
  from get_new_file_result[OF this] assms show ?thesis by simp
next
  case (Some a)
  with assms obtain fl where fl: "Option.bind (iter_file it) (files s) = Some fl"
    by (auto simp: profile_node_iterator_def split: option.splits)
  show ?thesis
  proof (cases "upd_serial fl = iter_file_serial it")
    case True
    with assms Some fl have "get_new_file U s i 0 = Some y" by (simp add: profile_node_iterator_def)
    from get_new_file_result[OF this] assms show ?thesis by simp
  next
    case False
    let ?s' = "set_iter s i (it\<lparr>iter_flags := (iter_flags it)\<lparr>final_seen := False\<rparr>,
                                iter_node := None\<rparr>)"
    from assms Some fl False have "get_new_file U ?s' i (iter_num it) = Some y"
      by (simp add: profile_node_iterator_def)
    from get_new_file_result[OF this] assms have "call_result_ok ?s' i y"
      by (simp add: set_iter_def)
    then show ?thesis using assms by (auto simp: call_result_ok_def set_iter_def)
  qed
qed

section \<open>The iterator over sources that are not reloaded\<close>

lemma sibs_node:
  "is_sibs h pa lvl prv ks e \<Longrightarrow> k \<in> set ks \<Longrightarrow> \<exists>prv' nxt'. is_node h (Some pa) lvl prv' nxt' k"
proof (induction ks arbitrary: prv)
  case Nil
  then show ?case by simp
next
  case (Cons x ks)
  show ?case
  proof (cases "k = x")
    case True
    with Cons.prems(1) show ?thesis by auto
  next
    case False
    with Cons.prems have "is_sibs h pa lvl (Some (t_addr x)) ks e" "k \<in> set ks" by auto
    then show ?thesis by (rule Cons.IH)
  qed
qed

lemma find_dropWhile:
  "find P ks = (case dropWhile (\<lambda>k. \<not> P k) ks of [] \<Rightarrow> None | k # _ \<Rightarrow> Some k)"
  by (induction ks) auto

lemma walk_names_spec:
  assumes "is_node h par lvl prv nxt t" and "d \<le> length ns"
  shows "case resolve_path (take (length ns - d) ns) t of
           (None, fin) \<Rightarrow> (\<exists>cpp. walk_names h d ns (t_addr t) seen = Some (None, cpp, seen \<or> fin))
         | (Some sec, fin) \<Rightarrow>
             walk_names h d ns (t_addr t) seen
               = Some (Some (t_addr sec), drop (length ns - d) ns, seen \<or> fin)
             \<and> (\<exists>par' lvl' prv' nxt'. is_node h par' lvl' prv' nxt' sec)"
  using assms
proof (induction ns arbitrary: t seen par lvl prv nxt)
  case Nil
  then show ?case by auto
next
  case (Cons c cpp)
  show ?case
  proof (cases "Suc (length cpp) = d")
    case True
    with Cons.prems show ?thesis by auto
  next
    case False
    with Cons.prems(2) have d: "d \<le> length cpp" by simp
    then have tk: "take (length (c # cpp) - d) (c # cpp) = c # take (length cpp - d) cpp"
      and dr: "drop (length (c # cpp) - d) (c # cpp) = drop (length cpp - d) cpp"
      by (simp_all add: Suc_diff_le)
    obtain a nm v f ks where t: "t = Tree a nm v f ks" by (cases t)
    from Cons.prems(1) t obtain sn where sn: "h a = Some sn" "first_child sn = first_or ks None"
      and sibs: "is_sibs h a (lvl + 1) None ks None" by auto
    let ?m = "\<lambda>k. \<not> matches (Some c) False k"
    have scan: "next_match h (Some c) False (first_child sn) = Some (first_or (dropWhile ?m ks) None)"
      using next_match_sibs[OF sibs, of "Some c" False] sn by simp
    show ?thesis
    proof (cases "dropWhile ?m ks")
      case dn: Nil
      have "find (matches (Some c) False) ks = None" unfolding find_dropWhile dn by simp
      moreover have "walk_names h d (c # cpp) a seen = Some (None, c # cpp, seen)"
        using d False sn scan unfolding dn by simp
      ultimately show ?thesis unfolding tk using t by simp
    next
      case dc: (Cons k rest)
      have fk: "find (matches (Some c) False) ks = Some k" unfolding find_dropWhile dc by simp
      have "k \<in> set (dropWhile ?m ks)" unfolding dc by simp
      then have kin: "k \<in> set ks" by (rule set_dropWhileD)
      from sibs_node[OF sibs kin] obtain prv' nxt' where nk: "is_node h (Some a) (lvl + 1) prv' nxt' k"
        by blast
      then obtain pn where pn: "h (t_addr k) = Some pn" "final pn = t_final k" by (cases k) auto
      have sc: "next_match h (Some c) False (first_child sn) = Some (Some (t_addr k))"
        using scan unfolding dc by simp
      have w: "walk_names h d (c # cpp) a seen = walk_names h d cpp (t_addr k) (seen \<or> t_final k)"
        using d False sn sc pn by simp
      from Cons.IH[OF nk d, of "seen \<or> t_final k"] w fk t
      show ?thesis unfolding tk dr by (auto split: prod.splits option.splits)
    qed
  qed
qed


lemma qualifies_final_seen [simp]: "qualifies nmo (fl\<lparr>final_seen := x\<rparr>) = qualifies nmo fl"
  by (simp add: qualifies_def fun_eq_iff)

lemma iter_scan_spec:
  "is_sibs h pa lvl prv ks None \<Longrightarrow>
   iter_scan h nmo fl (first_or ks None) 0
     = Some (first_or (dropWhile (\<lambda>k. \<not> qualifies nmo fl k) ks) None)"
proof (induction ks arbitrary: prv)
  case Nil
  then show ?case by (subst iter_scan.simps) simp
next
  case (Cons k ks)
  obtain a knm v f cs where k: "k = Tree a knm v f cs" by (cases k)
  from Cons k show ?case
    by (subst iter_scan.simps) (auto simp: qualifies_def split: option.splits)
qed

lemma spinning_never:
  assumes "spinning U s i"
  shows "get_new_file U s i k = None"
proof (rule ccontr)
  assume "get_new_file U s i k \<noteq> None"
  then obtain y where y: "get_new_file U s i k = Some y" by auto
  have "\<not> spinning U s i"
  proof (rule get_new_file.raw_induct[where P = "\<lambda>U s i k y. \<not> spinning U s i", OF _ y],
         goal_cases)
    case (1 g U s i k y)
    show ?case
    proof
      assume "spinning U s i"
      then obtain it f fl r sa cpp sn where c:
        "iters s i = Some it" "iter_node it = None" "iter_file it = Some f"
        "\<not> final_seen (iter_flags it)"
        "U (nodes s) (files s) f = (OK, nodes s, files s)"
        "files s f = Some fl" "root fl = Some r"
        "walk_names (nodes s) (iter_done_idx it) (iter_names it) r False
           = Some (Some sa, cpp, False)"
        "nodes s sa = Some sn" "first_child sn = None"
        unfolding spinning_def by blast
      let ?s' = "set_iter (s\<lparr>nodes := nodes s, files := files s\<rparr>) i
                   (it\<lparr>iter_file_serial := upd_serial fl,
                       iter_flags := (iter_flags it)\<lparr>final_seen := False\<rparr>,
                       iter_name := (case cpp of [] \<Rightarrow> None | c # _ \<Rightarrow> Some c),
                       iter_node := first_child sn\<rparr>)"
      have sp: "spinning U ?s' i"
        unfolding spinning_def using c by (auto simp: set_iter_def)
      have "g U ?s' i k = Some y" using 1(2) c by simp
      from 1(1)[OF this] sp show False by simp
    qed
  qed
  with assms show False by simp
qed

lemma freed_set_iter [simp]: "freed (set_iter s i it) i = freed s i"
  by (simp add: freed_def set_iter_def)

lemma exhausted_ends:
  assumes "iters s i = Some it" "iter_magic it = PROF_MAGIC_ITERATOR" "iter_node it = None"
    "iter_file it = None \<or> final_seen (iter_flags it)"
  shows "get_new_file U s i k = Some (OK, freed s i, None, Written None None None)"
  using assms by (subst get_new_file.simps) (auto simp: profile_node_iterator_free_def freed_def)

lemma get_new_file_scan:
  assumes inv: "iter_inv U fl ns d e s i rest fts fin" and ne: "rest \<noteq> []"
  shows "case dropWhile (\<lambda>k. \<not> qualifies (filter_of d ns) fl k) rest of
           [] \<Rightarrow> (\<exists>s'. get_new_file U s i 0 = get_new_file U s' i 0
                     \<and> iter_inv U fl ns d e s' i [] fts fin \<and> freed s' i = freed s i)
         | c # rest' \<Rightarrow> (\<exists>s'. get_new_file U s i 0 = Some (OK, s', Some i,
                              Written (Some (t_addr c)) (Some (t_name c)) (t_value c))
                          \<and> iter_inv U fl ns d e s' i rest' fts fin)"
proof -
  let ?q = "\<lambda>k. \<not> qualifies (filter_of d ns) fl k"
  from inv ne obtain it f flr sec lvl prv where it: "iters s i = Some it"
    "iter_magic it = PROF_MAGIC_ITERATOR" "iter_flags it = fl\<lparr>final_seen := fin\<rparr>"
    "iter_names it = ns" "iter_done_idx it = d" "d \<le> length ns"
    "iter_node it = first_or rest None"
    and us: "\<forall>ft \<in> set fts. U (nodes s) (files s) (fst ft) = (OK, nodes s, files s)"
    and pe: "e = None \<or> fin \<or> \<not> passes (path_of d ns) (map snd fts)"
    and nm: "iter_name it = filter_of d ns"
    and fl: "iter_file it = Some f" "files s f = Some flr" "upd_serial flr = iter_file_serial it"
    and fs: "is_files (nodes s) (files s) (file_next flr) fts e"
    and sibs: "is_sibs (nodes s) sec lvl prv rest None"
    unfolding iter_inv_def by auto
  obtain a where a: "iter_node it = Some a" using it(7) ne by (cases rest) auto
  have scan: "iter_scan (nodes s) (iter_name it) (iter_flags it) (iter_node it) 0
                = Some (first_or (dropWhile ?q rest) None)"
    using iter_scan_spec[OF sibs, of "filter_of d ns" "fl\<lparr>final_seen := fin\<rparr>"] it nm by simp
  show ?thesis
  proof (cases "dropWhile ?q rest")
    case Nil
    let ?s' = "set_iter s i (it\<lparr>iter_num := iter_num it + 1, iter_file := file_next flr,
                                iter_node := None\<rparr>)"
    have "get_new_file U s i 0 = get_new_file U ?s' i 0"
      using it(1) a scan fl unfolding Nil by (subst get_new_file.simps) simp
    moreover have "iter_inv U fl ns d e ?s' i [] fts fin"
      unfolding iter_inv_def using it us pe fs by (simp add: set_iter_def)
    ultimately show ?thesis unfolding Nil by (auto intro!: exI[of _ ?s'])
  next
    case (Cons c rest')
    have rest: "rest = takeWhile ?q rest @ c # rest'"
      using Cons takeWhile_dropWhile_id[of ?q rest] by simp
    have "is_sibs (nodes s) sec lvl (last_or (takeWhile ?q rest) prv) (c # rest') None"
      using sibs by (subst (asm) rest) (simp add: is_sibs_append)
    then have nc: "is_node (nodes s) (Some sec) lvl (last_or (takeWhile ?q rest) prv)
                     (first_or rest' None) c"
      and sr: "is_sibs (nodes s) sec lvl (Some (t_addr c)) rest' None" by simp_all
    obtain pn where pn: "nodes s (t_addr c) = Some pn" "next pn = first_or rest' None"
      "name pn = Some (t_name c)" "value pn = t_value c"
      using nc by (cases c) auto
    let ?s' = "set_iter s i (it\<lparr>iter_num := iter_num it + 1, iter_node := next pn,
                 iter_file := (if next pn = None then file_next flr else Some f)\<rparr>)"
    have sc: "iter_scan (nodes s) (iter_name it) (iter_flags it) (iter_node it) 0
                = Some (Some (t_addr c))"
      using scan unfolding Cons by simp
    have "get_new_file U s i 0 = Some (OK, ?s', Some i,
            Written (Some (t_addr c)) (Some (t_name c)) (t_value c))"
      using it(1) a sc fl pn by (subst get_new_file.simps) auto
    moreover have "iter_inv U fl ns d e ?s' i rest' fts fin"
    proof (cases "rest' = []")
      case True
      then show ?thesis
        unfolding iter_inv_def using it us pe fs pn by (simp add: set_iter_def)
    next
      case False
      then have "next pn \<noteq> None" using pn by (cases rest') auto
      then show ?thesis
        unfolding iter_inv_def using it us pe fs pn nm fl sr False
        by (auto simp: set_iter_def)
    qed
    ultimately show ?thesis unfolding Cons by auto
  qed
qed

lemma get_new_file_between:
  assumes "iter_inv U fl ns d e s i [] fts fin"
  shows "case next_from (path_of d ns) (filter_of d ns) fl fin fts of
           Ends \<Rightarrow> get_new_file U s i 0 = Some (OK, freed s i, None, Written None None None)
         | Never \<Rightarrow> get_new_file U s i 0 = None
         | Gives c rest fts' fin' \<Rightarrow>
             (\<exists>s'. get_new_file U s i 0 = Some (OK, s', Some i,
                      Written (Some (t_addr c)) (Some (t_name c)) (t_value c))
                  \<and> iter_inv U fl ns d e s' i rest fts' fin')"
  using assms
proof (induction fts arbitrary: s fin)
  case Nil
  then show ?case
    by (auto simp: iter_inv_def intro!: exhausted_ends)
next
  case (Cons ft fts)
  obtain f t where ft: "ft = (f, t)" by (cases ft)
  from Cons.prems obtain it where it: "iters s i = Some it"
    "iter_magic it = PROF_MAGIC_ITERATOR" "iter_flags it = fl\<lparr>final_seen := fin\<rparr>"
    "iter_names it = ns" "iter_done_idx it = d" "d \<le> length ns" "iter_node it = None"
    and us0: "\<forall>ft \<in> set (ft # fts). U (nodes s) (files s) (fst ft) = (OK, nodes s, files s)"
    and pe0: "e = None \<or> fin \<or> \<not> passes (path_of d ns) (map snd (ft # fts))"
    and fs0: "is_files (nodes s) (files s) (iter_file it) (ft # fts) e"
    unfolding iter_inv_def by (elim exE conjE) simp
  from us0 have us: "\<forall>ft \<in> set fts. U (nodes s) (files s) (fst ft) = (OK, nodes s, files s)"
    and uf: "U (nodes s) (files s) f = (OK, nodes s, files s)" by (simp_all add: ft)
  from pe0 have pe: "e = None \<or> fin \<or> \<not> passes (path_of d ns) (t # map snd fts)"
    by (simp add: ft del: passes.simps)
  from fs0 obtain flr where fl: "iter_file it = Some f" "files s f = Some flr"
    "root flr = Some (t_addr t)"
    and tr: "is_tree (nodes s) t"
    and fs: "is_files (nodes s) (files s) (file_next flr) fts e"
    by (auto simp: ft split: option.splits)
  show ?case
  proof (cases fin)
    case True
    then show ?thesis using it by (auto simp: ft intro!: exhausted_ends)
  next
    case nf: False
    have s_eq: "s\<lparr>nodes := nodes s, files := files s\<rparr> = s" by simp
    from tr obtain par lvl prv nxt where nt: "is_node (nodes s) par lvl prv nxt t"
      by (auto simp: is_tree_def split: option.splits)
    note wn = walk_names_spec[OF nt it(6), of False, folded path_of_def]
    show ?thesis
    proof (cases "resolve_path (path_of d ns) t")
      case (Pair r fin')
      show ?thesis
      proof (cases r)
        case None
        from wn obtain cpp where w: "walk_names (nodes s) d ns (t_addr t) False
             = Some (None, cpp, fin')" unfolding Pair None by auto
        let ?s' = "set_iter s i (it\<lparr>iter_file_serial := upd_serial flr,
              iter_flags := (iter_flags it)\<lparr>final_seen := fin'\<rparr>,
              iter_file := file_next flr\<rparr>)"
        have g: "get_new_file U s i 0 = get_new_file U ?s' i 0"
          using it fl uf w nf by (subst get_new_file.simps) (simp add: s_eq)
        have "iter_inv U fl ns d e ?s' i [] fts fin'"
          unfolding iter_inv_def using it us pe fs nf Pair None
          by (auto simp: set_iter_def)
        from Cons.IH[OF this] show ?thesis
          unfolding g freed_set_iter using nf Pair None by (simp add: ft)
      next
        case (Some sec)
        from wn obtain par' lvl' prv' nxt' where
          w: "walk_names (nodes s) d ns (t_addr t) False
             = Some (Some (t_addr sec), drop (length ns - d) ns, fin')"
          and ns: "is_node (nodes s) par' lvl' prv' nxt' sec"
          unfolding Pair Some by auto
        from ns obtain sn where sn: "nodes s (t_addr sec) = Some sn"
          "first_child sn = first_or (t_kids sec) None"
          and sibs: "is_sibs (nodes s) (t_addr sec) (lvl' + 1) None (t_kids sec) None"
          by (cases sec) auto
        let ?s' = "set_iter s i (it\<lparr>iter_file_serial := upd_serial flr,
              iter_flags := (iter_flags it)\<lparr>final_seen := fin'\<rparr>,
              iter_name := filter_of d ns,
              iter_node := first_child sn\<rparr>)"
        have g: "get_new_file U s i 0 = get_new_file U ?s' i 0"
          using it fl uf w nf sn
          by (subst get_new_file.simps) (simp add: s_eq filter_of_def)
        show ?thesis
        proof (cases "t_kids sec = []")
          case True
          show ?thesis
          proof (cases fin')
            case True
            have "get_new_file U ?s' i 0 = Some (OK, freed ?s' i, None, Written None None None)"
              using it sn \<open>t_kids sec = []\<close> True
              by (intro exhausted_ends[where it = "it\<lparr>iter_file_serial := upd_serial flr,
              iter_flags := (iter_flags it)\<lparr>final_seen := fin'\<rparr>,
              iter_name := filter_of d ns,
              iter_node := first_child sn\<rparr>"]) (simp_all add: set_iter_def)
            then show ?thesis
              unfolding g using nf Pair Some \<open>t_kids sec = []\<close> True by (simp add: ft)
          next
            case False
            have "spinning U s i"
              unfolding spinning_def using it fl uf w sn nf False \<open>t_kids sec = []\<close>
              by auto
            from spinning_never[OF this] show ?thesis
              using nf Pair Some \<open>t_kids sec = []\<close> False by (simp add: ft)
          qed
        next
          case False
          have inv': "iter_inv U fl ns d e ?s' i (t_kids sec) fts fin'"
            unfolding iter_inv_def using it us pe fs nf Pair Some False sn fl sibs
            by (auto simp: set_iter_def)
          note sc = get_new_file_scan[OF inv' False]
          show ?thesis
          proof (cases "dropWhile (\<lambda>k. \<not> qualifies (filter_of d ns) fl k) (t_kids sec)")
            case Nil
            from sc obtain s'' where s'': "get_new_file U ?s' i 0 = get_new_file U s'' i 0"
              "iter_inv U fl ns d e s'' i [] fts fin'" "freed s'' i = freed ?s' i"
              unfolding Nil by auto
            from Cons.IH[OF s''(2)] show ?thesis
              unfolding g s''(1) s''(3) freed_set_iter using nf Pair Some False by (simp add: ft Nil)
          next
            case (Cons c rest)
            from sc show ?thesis
              unfolding g using nf Pair Some False by (simp add: ft Cons)
          qed
        qed
      qed
    qed
  qed
qed

lemma iterator_step:
  assumes inv: "iter_inv U fl ns d e s i rest fts fin"
  shows "case step (path_of d ns) (filter_of d ns) fl rest fts fin of
           Ends \<Rightarrow> profile_node_iterator U s (Some i)
                     = Some (OK, freed s i, None, Written None None None)
         | Never \<Rightarrow> profile_node_iterator U s (Some i) = None
         | Gives c rest' fts' fin' \<Rightarrow>
             (\<exists>s'. profile_node_iterator U s (Some i) = Some (OK, s', Some i,
                      Written (Some (t_addr c)) (Some (t_name c)) (t_value c))
                  \<and> iter_inv U fl ns d e s' i rest' fts' fin')"
proof -
  have call: "profile_node_iterator U s (Some i) = get_new_file U s i 0"
    using inv unfolding iter_inv_def profile_node_iterator_def
    by (auto split: option.splits if_splits)
  show ?thesis
  proof (cases "rest = []")
    case True
    from get_new_file_between[OF inv[unfolded True]] show ?thesis
      unfolding call by (simp add: step_def True)
  next
    case False
    note sc = get_new_file_scan[OF inv False]
    show ?thesis
    proof (cases "dropWhile (\<lambda>k. \<not> qualifies (filter_of d ns) fl k) rest")
      case Nil
      from sc obtain s' where s': "get_new_file U s i 0 = get_new_file U s' i 0"
        "iter_inv U fl ns d e s' i [] fts fin" "freed s' i = freed s i"
        unfolding Nil by auto
      from get_new_file_between[OF s'(2)] show ?thesis
        unfolding call s'(1) s'(3) by (simp add: step_def Nil)
    next
      case (Cons c rest')
      from sc show ?thesis unfolding call by (simp add: step_def Cons)
    qed
  qed
qed

lemma next_from_merged:
  "case next_from path nmo fl fin fts of
     Ends \<Rightarrow> remaining path nmo fl [] fts fin = [] \<and> (fin \<or> \<not> stuck path (map snd fts))
   | Never \<Rightarrow> \<not> fin \<and> stuck path (map snd fts)
   | Gives c rest fts' fin' \<Rightarrow>
       remaining path nmo fl [] fts fin = c # remaining path nmo fl rest fts' fin'
       \<and> (\<not> fin \<and> stuck path (map snd fts)) = (\<not> fin' \<and> stuck path (map snd fts'))"
proof (induction fts arbitrary: fin)
  case Nil
  then show ?case by (simp add: remaining_def)
next
  case (Cons ft fts)
  obtain f t where ft: "ft = (f, t)" by (cases ft)
  show ?case
  proof (cases fin)
    case True
    then show ?thesis by (simp add: ft remaining_def)
  next
    case nf: False
    obtain r fin' where rp: "resolve_path path t = (r, fin')"
      by (cases "resolve_path path t")
    show ?thesis
    proof (cases r)
      case None
      from Cons.IH[of fin'] show ?thesis
        using nf rp None by (auto simp: ft remaining_def split: outcome.splits)
    next
      case (Some sec)
      show ?thesis
      proof (cases "t_kids sec = []")
        case True
        then show ?thesis using nf rp Some by (simp add: ft remaining_def)
      next
        case ne: False
        show ?thesis
        proof (cases "dropWhile (\<lambda>k. \<not> qualifies nmo fl k) (t_kids sec)")
          case Nil
          have "filter (qualifies nmo fl) (t_kids sec) = []"
            by (rule filter_dropWhile_Nil[OF Nil])
          with Cons.IH[of fin'] show ?thesis
            using nf rp Some ne
            by (auto simp: ft remaining_def Nil split: outcome.splits)
        next
          case (Cons c rest)
          have "filter (qualifies nmo fl) (t_kids sec) = c # filter (qualifies nmo fl) rest"
            by (rule filter_dropWhile[OF Cons])
          then show ?thesis
            using nf rp Some ne by (simp add: ft remaining_def Cons)
        qed
      qed
    qed
  qed
qed

lemma step_merged:
  "case step path nmo fl rest fts fin of
     Ends \<Rightarrow> remaining path nmo fl rest fts fin = [] \<and> (fin \<or> \<not> stuck path (map snd fts))
   | Never \<Rightarrow> \<not> fin \<and> stuck path (map snd fts)
   | Gives c rest' fts' fin' \<Rightarrow>
       remaining path nmo fl rest fts fin = c # remaining path nmo fl rest' fts' fin'
       \<and> (\<not> fin \<and> stuck path (map snd fts)) = (\<not> fin' \<and> stuck path (map snd fts'))"
proof (cases "dropWhile (\<lambda>k. \<not> qualifies nmo fl k) rest")
  case Nil
  have "filter (qualifies nmo fl) rest = []"
    by (rule filter_dropWhile_Nil[OF Nil])
  with next_from_merged[where path = path and nmo = nmo and fl = fl and fin = fin and fts = fts] show ?thesis
    by (auto simp: step_def Nil remaining_def split: outcome.splits)
next
  case (Cons c rest')
  have "filter (qualifies nmo fl) rest = c # filter (qualifies nmo fl) rest'"
    by (rule filter_dropWhile[OF Cons])
  then show ?thesis by (simp add: step_def Cons remaining_def)
qed

lemma iterate_complete:
  assumes "iter_inv U fl ns d e s i rest fts fin"
    and "fin \<or> \<not> stuck (path_of d ns) (map snd fts)"
    and "E = remaining (path_of d ns) (filter_of d ns) fl rest fts fin"
  shows "\<exists>s'. iterate (Suc (length E)) U s (Some i)
           = Some (map yield E @ [(OK, Written None None None)], s', None)"
  using assms
proof (induction E arbitrary: s rest fts fin)
  case Nil
  note st = step_merged[where path = "path_of d ns" and nmo = "filter_of d ns" and fl = fl and rest = rest and fts = fts and fin = fin]
  note it = iterator_step[OF Nil.prems(1)]
  show ?case
  proof (cases "step (path_of d ns) (filter_of d ns) fl rest fts fin")
    case Ends
    with it show ?thesis by simp
  next
    case Never
    with st Nil.prems(2) show ?thesis by simp
  next
    case (Gives c rest' fts' fin')
    with st Nil.prems(3) show ?thesis by simp
  qed
next
  case (Cons c E)
  note st = step_merged[where path = "path_of d ns" and nmo = "filter_of d ns" and fl = fl and rest = rest and fts = fts and fin = fin]
  note it = iterator_step[OF Cons.prems(1)]
  show ?case
  proof (cases "step (path_of d ns) (filter_of d ns) fl rest fts fin")
    case Ends
    with st Cons.prems(3) show ?thesis by simp
  next
    case Never
    with st Cons.prems(2) show ?thesis by simp
  next
    case (Gives c' rest' fts' fin')
    from st Cons.prems(3) have c: "c' = c"
      and E: "E = remaining (path_of d ns) (filter_of d ns) fl rest' fts' fin'"
      and ns: "fin' \<or> \<not> stuck (path_of d ns) (map snd fts')"
      using Cons.prems(2) unfolding Gives by auto
    from it obtain s' where s': "profile_node_iterator U s (Some i) = Some (OK, s', Some i,
                      Written (Some (t_addr c)) (Some (t_name c)) (t_value c))"
      "iter_inv U fl ns d e s' i rest' fts' fin'"
      unfolding Gives c by auto
    from Cons.IH[OF s'(2) ns E] obtain s'' where
      "iterate (Suc (length E)) U s' (Some i)
           = Some (map yield E @ [(OK, Written None None None)], s'', None)" by auto
    then show ?thesis using s'(1) by (simp add: yield_def)
  qed
qed

lemma iterate_prefix:
  assumes "iter_inv U fl ns d e s i rest fts fin"
    and "E = remaining (path_of d ns) (filter_of d ns) fl rest fts fin"
    and "n \<le> length E"
  shows "iterate n U s (Some i) = None
         \<or> (\<exists>s'. iterate n U s (Some i) = Some (take n (map yield E), s', Some i))"
  using assms
proof (induction n arbitrary: E s rest fts fin)
  case 0
  then show ?case by simp
next
  case (Suc n)
  note st = step_merged[where path = "path_of d ns" and nmo = "filter_of d ns" and fl = fl and rest = rest and fts = fts and fin = fin]
  note it = iterator_step[OF Suc.prems(1)]
  show ?case
  proof (cases "step (path_of d ns) (filter_of d ns) fl rest fts fin")
    case Ends
    with st Suc.prems(2,3) show ?thesis by simp
  next
    case Never
    with it show ?thesis by simp
  next
    case (Gives c rest' fts' fin')
    from st Suc.prems(2) have E: "E = c # remaining (path_of d ns) (filter_of d ns) fl rest' fts' fin'"
      unfolding Gives by simp
    from it obtain s' where s': "profile_node_iterator U s (Some i) = Some (OK, s', Some i,
                      Written (Some (t_addr c)) (Some (t_name c)) (t_value c))"
      "iter_inv U fl ns d e s' i rest' fts' fin'"
      unfolding Gives by auto
    from Suc.IH[OF s'(2) refl] Suc.prems(3) show ?thesis
      using s'(1) by (auto simp: E yield_def)
  qed
qed

text \<open>The nodes written out for the example are the nodes the insertions build.\<close>

lemma h_final_nodes: "h_final = Some final_nodes"
proof -
  have "h_final = Some (Map.empty(30 \<mapsto> lone ''root'' None,
     10 \<mapsto> (lone ''root'' None)\<lparr>first_child := Some 11\<rparr>,
     12 \<mapsto> (lone ''k'' (Some ''1''))\<lparr>group_level := 2, parent := Some 11\<rparr>,
     20 \<mapsto> (lone ''root'' None)\<lparr>first_child := Some 21\<rparr>,
     22 \<mapsto> (lone ''k'' (Some ''2''))\<lparr>group_level := 2, parent := Some 21\<rparr>,
     21 \<mapsto> (lone ''a'' None)\<lparr>group_level := 1, parent := Some 20, first_child := Some 22\<rparr>,
     11 \<mapsto> (lone ''a'' None)\<lparr>group_level := 1, final := True, parent := Some 10,
                                first_child := Some 12\<rparr>))"
    by (simp add: iter_defs iter_run build.simps)
  also have "\<dots> = Some final_nodes"
    unfolding final_nodes_def by (simp add: fun_eq_iff)
  finally show ?thesis .
qed


text \<open>
  An empty section that is not final: the first call of a new iterator for \<open>a\<close>, \<open>k\<close> never
  returns, with \<open>k = 2\<close> in the second file. The nodes are those the insertions build.
\<close>

lemma empty_a_nodes_built:
  "build roots [(10, 11, ''a'', None), (20, 21, ''a'', None), (21, 22, ''k'', Some ''2'')]
     = Some empty_a_nodes"
  by (simp add: iter_defs iter_run build.simps empty_a_nodes_def fun_eq_iff)

lemma empty_section_never_returns:
  "iterate_new 1 no_reload empty_a_state 100 a_profile [''a'', ''k''] no_flags = None"
proof -
  let ?it = "\<lparr>iter_magic = PROF_MAGIC_ITERATOR, iter_profile = a_profile,
               iter_flags = no_flags, iter_names = [''a'', ''k''], iter_name = None,
               iter_file = Some 1, iter_file_serial = 0,
               iter_done_idx = 1, iter_node = None, iter_num = 0\<rparr>"
  let ?s0 = "empty_a_state\<lparr>iters := Map.empty(100 \<mapsto> ?it)\<rparr>"
  have cr: "profile_node_iterator_create empty_a_state (Some 100) (Some a_profile)
              (Some [''a'', ''k'']) no_flags = Some (OK, ?s0, Some 100)"
    by (simp add: profile_node_iterator_create_def empty_a_state_def a_profile_def no_flags_def)
  have "spinning no_reload ?s0 100"
    unfolding spinning_def
    by (rule exI[of _ ?it], rule exI[of _ 1],
        rule exI[of _ "\<lparr>root = Some 10, upd_serial = 0, file_next = Some 2\<rparr>"],
        rule exI[of _ 10], rule exI[of _ 11], rule exI[of _ "[''k'']"],
        rule exI[of _ "(lone ''a'' None)\<lparr>group_level := 1, parent := Some 10\<rparr>"])
       (simp add: empty_a_state_def empty_a_nodes_def two_files_def no_flags_def no_reload_def
          lone_def next_match.simps)
  from spinning_never[OF this] have "get_new_file no_reload ?s0 100 0 = None" .
  then have "profile_node_iterator no_reload ?s0 (Some 100) = None"
    by (simp add: profile_node_iterator_def)
  then show ?thesis
    unfolding iterate_new_def cr by simp
qed

section \<open>The counter of the iterator\<close>

lemma get_new_file_counted:
  assumes "get_new_file U s i k = Some y"
  shows "\<forall>c. \<exists>c'. get_new_file_scans U s i k c = Some (y, c')"
proof (rule get_new_file.raw_induct[where P = "\<lambda>U s i k y.
          \<forall>c. \<exists>c'. get_new_file_scans U s i k c = Some (y, c')", OF _ assms], goal_cases)
  case (1 g U s i k y)
  from 1(2) obtain it where it: "iters s i = Some it" by (cases "iters s i") simp_all
  show ?case
  proof
    fix c
    show "\<exists>c'. get_new_file_scans U s i k c = Some (y, c')"
    proof (cases "iter_node it")
      case None
      show ?thesis
      proof (cases "iter_file it = None \<or> final_seen (iter_flags it)")
        case True
        with 1(2) it None show ?thesis
          by (subst get_new_file_scans.simps) (auto split: option.splits)
      next
        case False
        then obtain f where f: "iter_file it = Some f" by auto
        obtain retval h1 fs1 where u: "U (nodes s) (files s) f = (retval, h1, fs1)"
          by (cases "U (nodes s) (files s) f") auto
        show ?thesis
        proof (cases "retval = OK")
          case ne: False
          with 1(2) it None False f u show ?thesis
            by (subst get_new_file_scans.simps) (auto split: option.splits)
        next
          case True
          with 1(2) it None False f u obtain fl r sec cpp seen where
            w: "fs1 f = Some fl" "root fl = Some r"
               "walk_names h1 (iter_done_idx it) (iter_names it) r (final_seen (iter_flags it))
                  = Some (sec, cpp, seen)"
            by (auto split: option.splits)
          show ?thesis
          proof (cases sec)
            case sn: None
            let ?s' = "set_iter (s\<lparr>nodes := h1, files := fs1\<rparr>) i
                        (it\<lparr>iter_file_serial := upd_serial fl,
                            iter_flags := (iter_flags it)\<lparr>final_seen := seen\<rparr>,
                            iter_file := file_next fl\<rparr>)"
            have "g U ?s' i 0 = Some y"
              using 1(2) it None False f u True w sn by simp
            from 1(1)[OF this] obtain c' where "get_new_file_scans U ?s' i 0 c = Some (y, c')"
              by blast
            then show ?thesis
              using it None False f u True w sn by (subst get_new_file_scans.simps) simp
          next
            case (Some sa)
            with 1(2) it None False f u True w obtain sn where sn: "h1 sa = Some sn"
              by (auto split: option.splits)
            let ?s' = "set_iter (s\<lparr>nodes := h1, files := fs1\<rparr>) i
                         (it\<lparr>iter_file_serial := upd_serial fl,
                             iter_flags := (iter_flags it)\<lparr>final_seen := seen\<rparr>,
                             iter_name := (case cpp of [] \<Rightarrow> None | c # _ \<Rightarrow> Some c),
                             iter_node := first_child sn\<rparr>)"
            have "g U ?s' i k = Some y"
              using 1(2) it None False f u True w Some sn by simp
            from 1(1)[OF this] obtain c' where "get_new_file_scans U ?s' i k c = Some (y, c')"
              by blast
            then show ?thesis
              using it None False f u True w Some sn by (subst get_new_file_scans.simps) simp
          qed
        qed
      qed
    next
      case (Some a)
      with 1(2) it obtain p where
        sc: "iter_scan (nodes s) (iter_name it) (iter_flags it) (Some a) k = Some p"
        by (auto split: option.splits)
      show ?thesis
      proof (cases p)
        case None
        with 1(2) it Some sc obtain fl where fl: "Option.bind (iter_file it) (files s) = Some fl"
          by (auto split: option.splits)
        let ?s' = "set_iter s i (it\<lparr>iter_num := iter_num it + 1, iter_file := file_next fl,
                                  iter_node := None\<rparr>)"
        have "g U ?s' i 0 = Some y"
          using 1(2) it Some sc None fl by simp
        from 1(1)[OF this] obtain c' where "get_new_file_scans U ?s' i 0 (Suc c) = Some (y, c')"
          by blast
        then show ?thesis
          using it Some sc None fl by (subst get_new_file_scans.simps) simp
      next
        case found: (Some pa)
        with 1(2) it Some sc show ?thesis
          by (subst get_new_file_scans.simps) (auto split: option.splits if_splits)
      qed
    qed
  qed
qed

lemma counted_step:
  assumes "counted (set_iter s0 i it0) i c0 yc" and "iters s i = Some it"
    and "iter_num it0 = iter_num it + of_nat (c0 - c)" and "c \<le> c0"
  shows "counted s i c yc"
proof -
  obtain r s' ip out c' where yc: "yc = ((r, s', ip, out), c')" by (cases yc) auto
  from assms(1) have le: "c0 \<le> c'" by (simp add: counted_def yc)
  have "of_nat (c' - c) = (of_nat (c0 - c) + of_nat (c' - c0) :: 32 word)"
    using le assms(4) by (simp flip: of_nat_add)
  with assms show ?thesis
    by (auto simp: counted_def yc set_iter_def)
qed

lemma get_new_file_scans_result:
  assumes "get_new_file_scans U s i k c = Some yc"
  shows "get_new_file U s i k = Some (fst yc)
         \<and> (\<forall>it. iters s i = Some it \<and> iter_magic it = PROF_MAGIC_ITERATOR \<longrightarrow> counted s i c yc)"
proof (rule get_new_file_scans.raw_induct[where P = "\<lambda>U s i k c yc.
          get_new_file U s i k = Some (fst yc)
         \<and> (\<forall>it. iters s i = Some it \<and> iter_magic it = PROF_MAGIC_ITERATOR \<longrightarrow> counted s i c yc)",
        OF _ assms], goal_cases)
  case (1 g U s i k c yc)
  from 1(2) obtain it where it: "iters s i = Some it" by (cases "iters s i") simp_all
  show ?case
  proof (cases "iter_node it")
    case None
    show ?thesis
    proof (cases "iter_file it = None \<or> final_seen (iter_flags it)")
      case True
      with 1(2) it None show ?thesis
        by (subst get_new_file.simps)
           (auto simp: counted_def profile_node_iterator_free_def split: option.splits)
    next
      case False
      then obtain f where f: "iter_file it = Some f" by auto
      obtain retval h1 fs1 where u: "U (nodes s) (files s) f = (retval, h1, fs1)"
        by (cases "U (nodes s) (files s) f") auto
      show ?thesis
      proof (cases "retval = OK")
        case ne: False
        with 1(2) it None False f u show ?thesis
          by (subst get_new_file.simps)
             (auto simp: counted_def profile_node_iterator_free_def split: option.splits)
      next
        case True
        with 1(2) it None False f u obtain fl r sec cpp seen where
          w: "fs1 f = Some fl" "root fl = Some r"
             "walk_names h1 (iter_done_idx it) (iter_names it) r (final_seen (iter_flags it))
                = Some (sec, cpp, seen)"
          by (auto split: option.splits)
        show ?thesis
        proof (cases sec)
          case sn: None
          let ?it' = "it\<lparr>iter_file_serial := upd_serial fl,
                          iter_flags := (iter_flags it)\<lparr>final_seen := seen\<rparr>,
                          iter_file := file_next fl\<rparr>"
          let ?s' = "set_iter (s\<lparr>nodes := h1, files := fs1\<rparr>) i ?it'"
          have "g U ?s' i 0 c = Some yc"
            using 1(2) it None False f u True w sn by simp
          from 1(1)[OF this] have ih: "get_new_file U ?s' i 0 = Some (fst yc)"
            "iter_magic it = PROF_MAGIC_ITERATOR \<Longrightarrow> counted ?s' i c yc"
            by (simp_all add: set_iter_def)
          have a: "get_new_file U s i k = Some (fst yc)"
            using ih(1) it None False f u True w sn by (subst get_new_file.simps) simp
          have b: "counted s i c yc" if "iter_magic it = PROF_MAGIC_ITERATOR"
            by (rule counted_step[OF ih(2)[OF that] it]) simp_all
          from a b it show ?thesis by simp
        next
          case (Some sa)
          with 1(2) it None False f u True w obtain sn where sn: "h1 sa = Some sn"
            by (auto split: option.splits)
          let ?it' = "it\<lparr>iter_file_serial := upd_serial fl,
                           iter_flags := (iter_flags it)\<lparr>final_seen := seen\<rparr>,
                           iter_name := (case cpp of [] \<Rightarrow> None | c # _ \<Rightarrow> Some c),
                           iter_node := first_child sn\<rparr>"
          let ?s' = "set_iter (s\<lparr>nodes := h1, files := fs1\<rparr>) i ?it'"
          have "g U ?s' i k c = Some yc"
            using 1(2) it None False f u True w Some sn by simp
          from 1(1)[OF this] have ih: "get_new_file U ?s' i k = Some (fst yc)"
            "iter_magic it = PROF_MAGIC_ITERATOR \<Longrightarrow> counted ?s' i c yc"
            by (simp_all add: set_iter_def)
          have a: "get_new_file U s i k = Some (fst yc)"
            using ih(1) it None False f u True w Some sn by (subst get_new_file.simps) simp
          have b: "counted s i c yc" if "iter_magic it = PROF_MAGIC_ITERATOR"
            by (rule counted_step[OF ih(2)[OF that] it]) simp_all
          from a b it show ?thesis by simp
        qed
      qed
    qed
  next
    case (Some a)
    with 1(2) it obtain p where
      sc: "iter_scan (nodes s) (iter_name it) (iter_flags it) (Some a) k = Some p"
      by (auto split: option.splits)
    show ?thesis
    proof (cases p)
      case None
      with 1(2) it Some sc obtain fl where fl: "Option.bind (iter_file it) (files s) = Some fl"
        by (auto split: option.splits)
      let ?it' = "it\<lparr>iter_num := iter_num it + 1, iter_file := file_next fl,
                                iter_node := None\<rparr>"
      let ?s' = "set_iter s i ?it'"
      have "g U ?s' i 0 (Suc c) = Some yc"
        using 1(2) it Some sc None fl by simp
      from 1(1)[OF this] have ih: "get_new_file U ?s' i 0 = Some (fst yc)"
        "iter_magic it = PROF_MAGIC_ITERATOR \<Longrightarrow> counted ?s' i (Suc c) yc"
        by (simp_all add: set_iter_def)
      have a: "get_new_file U s i k = Some (fst yc)"
        using ih(1) it Some sc None fl by (subst get_new_file.simps) simp
      have b: "counted s i c yc" if "iter_magic it = PROF_MAGIC_ITERATOR"
        by (rule counted_step[OF ih(2)[OF that] it]) simp_all
      from a b it show ?thesis by simp
    next
      case found: (Some pa)
      with 1(2) it Some sc show ?thesis
        by (subst get_new_file.simps)
           (auto simp: counted_def set_iter_def split: option.splits if_splits)
    qed
  qed
qed

lemma sint_small: "m < 2 ^ 31 \<Longrightarrow> sint (of_nat m :: 32 word) = int m"
  by (simp add: signed_of_nat signed_take_bit_int_eq_self)

lemma get_new_file_scans_erase:
  "map_option fst (get_new_file_scans U s i k c) = get_new_file U s i k"
proof (cases "get_new_file_scans U s i k c")
  case None
  have "get_new_file U s i k = None"
  proof (rule ccontr)
    assume "get_new_file U s i k \<noteq> None"
    then obtain y where "get_new_file U s i k = Some y" by auto
    from get_new_file_counted[OF this] obtain c' where
      "get_new_file_scans U s i k c = Some (y, c')" by blast
    with None show False by simp
  qed
  with None show ?thesis by simp
next
  case (Some yc)
  from get_new_file_scans_result[OF this] Some show ?thesis by simp
qed

lemma iterator_scans_erase:
  "map_option fst (profile_node_iterator_scans U s ip) = profile_node_iterator U s ip"
  unfolding profile_node_iterator_scans_def profile_node_iterator_def
  by (simp add: get_new_file_scans_erase split: option.splits)

lemma iterator_scans_counted:
  assumes "profile_node_iterator_scans U s (Some i) = Some yc"
    and "iters s i = Some it" and "iter_magic it = PROF_MAGIC_ITERATOR"
  shows "counted s i 0 yc"
proof (cases "iter_node it")
  case None
  with assms have "get_new_file_scans U s i 0 0 = Some yc"
    by (simp add: profile_node_iterator_scans_def)
  from get_new_file_scans_result[OF this] assms show ?thesis by simp
next
  case (Some a)
  with assms obtain fl where fl: "Option.bind (iter_file it) (files s) = Some fl"
    by (auto simp: profile_node_iterator_scans_def split: option.splits)
  show ?thesis
  proof (cases "upd_serial fl = iter_file_serial it")
    case True
    with assms Some fl have "get_new_file_scans U s i 0 0 = Some yc"
      by (simp add: profile_node_iterator_scans_def)
    from get_new_file_scans_result[OF this] assms show ?thesis by simp
  next
    case False
    let ?it' = "it\<lparr>iter_flags := (iter_flags it)\<lparr>final_seen := False\<rparr>, iter_node := None\<rparr>"
    from assms Some fl False
    have "get_new_file_scans U (set_iter s i ?it') i (iter_num it) 0 = Some yc"
      by (simp add: profile_node_iterator_scans_def)
    from get_new_file_scans_result[OF this] assms
    have "counted (set_iter s i ?it') i 0 yc" by (simp add: set_iter_def)
    then show ?thesis by (rule counted_step[OF _ assms(2)]) simp_all
  qed
qed

lemma lifetime_num:
  assumes "lifetime U i s0 m s"
    and "iters s0 i = Some it0" and "iter_magic it0 = PROF_MAGIC_ITERATOR" and "iter_num it0 = 0"
  shows "\<exists>it. iters s i = Some it \<and> iter_magic it = PROF_MAGIC_ITERATOR
              \<and> iter_num it = of_nat m"
  using assms
proof (induction rule: lifetime.induct)
  case (created U i s0)
  then show ?case by simp
next
  case (call U i s0 m s r s' out n)
  from call.IH[OF call.prems] obtain it where it: "iters s i = Some it"
    "iter_magic it = PROF_MAGIC_ITERATOR" "iter_num it = of_nat m" by blast
  from iterator_scans_counted[OF call.hyps(2) it(1,2)] it show ?case
    by (auto simp: counted_def)
next
  case (other U i s0 m s s')
  from other.IH[OF other.prems] other.hyps(2) show ?case by simp
qed

section \<open>The children stay in name order\<close>

lemma of_char_less: "x \<noteq> y \<Longrightarrow> \<not> (of_char x :: nat) < of_char y \<Longrightarrow> (of_char y :: nat) < of_char x"
  using of_char_eq[of x y] by linarith

lemma strcmp_flip: "strcmp a b > 0 \<Longrightarrow> strcmp b a \<le> 0"
  by (induction a b rule: strcmp.induct) (auto split: if_splits dest: of_char_less)

lemma name_sorted_append:
  "name_sorted (xs @ ys) \<longleftrightarrow>
     name_sorted xs \<and> name_sorted ys
     \<and> (\<forall>a \<in> set xs. \<forall>b \<in> set ys. strcmp (t_name a) (t_name b) \<le> 0)"
  by (simp add: name_sorted_def sorted_wrt_append)

lemma name_sorted_Cons:
  "name_sorted (x # ys) \<longleftrightarrow>
     name_sorted ys \<and> (\<forall>b \<in> set ys. strcmp (t_name x) (t_name b) \<le> 0)"
  by (auto simp: name_sorted_def)

lemma sorted_insert:
  assumes "name_sorted ks"
  shows "name_sorted (insert_kid new nm v ks)"
proof -
  let ?pre = "takeWhile (name_le nm) ks" and ?post = "dropWhile (name_le nm) ks"
  have "name_sorted (?pre @ ?post)" using assms by simp
  then have s: "name_sorted ?pre" "name_sorted ?post"
    "\<forall>a \<in> set ?pre. \<forall>b \<in> set ?post. strcmp (t_name a) (t_name b) \<le> 0"
    unfolding name_sorted_append by blast+
  have pre: "\<forall>a \<in> set ?pre. strcmp (t_name a) nm \<le> 0"
    by (auto dest!: set_takeWhileD simp: name_le_def)
  have post: "\<forall>b \<in> set ?post. strcmp nm (t_name b) \<le> 0"
  proof
    fix b assume "b \<in> set ?post"
    with sorted_dropWhile_le[OF assms, of nm] have "\<not> name_le nm b" by blast
    then have "strcmp (t_name b) nm > 0" by (simp add: name_le_def)
    then show "strcmp nm (t_name b) \<le> 0" by (rule strcmp_flip)
  qed
  have "name_sorted (?pre @ Tree new nm v False [] # ?post)"
    unfolding name_sorted_append name_sorted_Cons using s pre post by simp
  then show ?thesis unfolding insert_kid_def .
qed

lemma del_run_sub: "set (del_run nm fl ks) \<subseteq> set ks"
  by (induction ks) auto

lemma sorted_del_run: "name_sorted ks \<Longrightarrow> name_sorted (del_run nm fl ks)"
proof (induction ks)
  case Nil
  then show ?case by simp
next
  case (Cons k ks)
  from Cons.prems have p: "name_sorted ks" "\<forall>b \<in> set ks. strcmp (t_name k) (t_name b) \<le> 0"
    unfolding name_sorted_Cons by blast+
  have ih: "name_sorted (del_run nm fl ks)" by (rule Cons.IH[OF p(1)])
  have "\<forall>b \<in> set (del_run nm fl ks). strcmp (t_name k) (t_name b) \<le> 0"
    using p(2) del_run_sub[of nm fl ks] by blast
  with ih have "name_sorted (k # del_run nm fl ks)" unfolding name_sorted_Cons by blast
  with ih Cons.prems show ?case by simp
qed

lemma sorted_remove:
  assumes "name_sorted ks"
  shows "name_sorted (remove_kids nm fl ks)"
proof -
  let ?P = "\<lambda>k. \<not> matches (Some nm) True k"
  have "name_sorted (takeWhile ?P ks @ dropWhile ?P ks)" using assms by simp
  then have s: "name_sorted (takeWhile ?P ks)" "name_sorted (dropWhile ?P ks)"
    "\<forall>a \<in> set (takeWhile ?P ks). \<forall>b \<in> set (dropWhile ?P ks). strcmp (t_name a) (t_name b) \<le> 0"
    unfolding name_sorted_append by blast+
  from s(3) del_run_sub[of nm fl "dropWhile ?P ks"]
  have "\<forall>a \<in> set (takeWhile ?P ks). \<forall>b \<in> set (del_run nm fl (dropWhile ?P ks)).
          strcmp (t_name a) (t_name b) \<le> 0" by blast
  with s(1) sorted_del_run[OF s(2), of nm fl] show ?thesis
    unfolding remove_kids_def name_sorted_append by blast
qed

lemma set_subtrees_list: "set (subtrees_list ks) = (\<Union>k \<in> set ks. set (subtrees k))"
  by (induction ks) auto

lemma all_sorted_Tree:
  "all_sorted (Tree a nm v f ks) \<longleftrightarrow> name_sorted ks \<and> (\<forall>k \<in> set ks. all_sorted k)"
  by (auto simp: all_sorted_def set_subtrees_list)

lemma t_name_upd_kids [simp]: "t_name (upd_kids sec g t) = t_name t"
  by (cases t) simp

lemma names_upd_kids_list: "map t_name (upd_kids_list sec g ks) = map t_name ks"
  by (induction ks) auto

lemma set_upd_kids_list: "set (upd_kids_list sec g ks) = upd_kids sec g ` set ks"
  by (induction ks) auto

lemma name_sorted_upd_kids_list: "name_sorted (upd_kids_list sec g ks) = name_sorted ks"
proof -
  have "name_sorted xs = sorted_wrt (\<lambda>a b. strcmp a b \<le> 0) (map t_name xs)" for xs
    by (simp add: name_sorted_def sorted_wrt_map)
  then show ?thesis by (simp add: names_upd_kids_list)
qed

lemma all_sorted_upd:
  assumes g: "\<And>ks. name_sorted ks \<Longrightarrow> \<forall>k \<in> set ks. all_sorted k \<Longrightarrow>
                 name_sorted (g ks) \<and> (\<forall>k \<in> set (g ks). all_sorted k)"
  shows "all_sorted t \<Longrightarrow> all_sorted (upd_kids sec g t)"
    and "\<forall>k \<in> set ks. all_sorted k \<Longrightarrow> \<forall>k \<in> set (upd_kids_list sec g ks). all_sorted k"
proof (induction t and ks rule: subtrees_subtrees_list.induct)
  case t: (1 a nm v f ks)
  from t.prems have p: "name_sorted ks" "\<forall>k \<in> set ks. all_sorted k"
    unfolding all_sorted_Tree by blast+
  show ?case
  proof (cases "a = sec")
    case True
    with g[OF p] show ?thesis by (simp add: all_sorted_Tree)
  next
    case False
    with t.IH[OF p(2)] p(1) show ?thesis
      by (simp add: all_sorted_Tree name_sorted_upd_kids_list)
  qed
next
  case 2
  then show ?case by simp
next
  case (3 k ks)
  then show ?case by simp
qed

lemma apply_op_sorted:
  assumes "all_sorted t" "apply_op (h, t) x = Some (h', t')"
  shows "all_sorted t'"
proof (cases x)
  case (Add sec m nm v)
  with assms(2) obtain new where t': "t' = upd_kids sec (insert_kid new nm v) t"
    by (auto split: if_splits option.splits errcode.splits)
  have "name_sorted (insert_kid new nm v ks) \<and> (\<forall>k \<in> set (insert_kid new nm v ks). all_sorted k)"
    if "name_sorted ks" "\<forall>k \<in> set ks. all_sorted k" for ks
  proof -
    have "all_sorted (Tree new nm v False [])" by (simp add: all_sorted_Tree name_sorted_def)
    moreover have "set (insert_kid new nm v ks) = insert (Tree new nm v False []) (set ks)"
      unfolding insert_kid_def using set_append[of "takeWhile (name_le nm) ks" "dropWhile (name_le nm) ks"]
      by auto
    ultimately show ?thesis using sorted_insert[OF that(1)] that(2) by simp
  qed
  from all_sorted_upd(1)[of "insert_kid new nm v", OF this assms(1)] t' show ?thesis by simp
next
  case (Remove sec nm fl)
  with assms(2) have t': "t' = upd_kids sec (remove_kids nm fl) t"
    by (auto split: if_splits option.splits errcode.splits)
  have "name_sorted (remove_kids nm fl ks) \<and> (\<forall>k \<in> set (remove_kids nm fl ks). all_sorted k)"
    if "name_sorted ks" "\<forall>k \<in> set ks. all_sorted k" for ks
  proof -
    have "set (remove_kids nm fl ks) \<subseteq> set ks"
      unfolding remove_kids_def
      using del_run_sub[of nm fl "dropWhile (\<lambda>k. \<not> matches (Some nm) True k) ks"]
        set_takeWhileD[of _ "\<lambda>k. \<not> matches (Some nm) True k" ks]
        set_dropWhileD[of _ "\<lambda>k. \<not> matches (Some nm) True k" ks]
      by auto
    then show ?thesis using sorted_remove[OF that(1)] that(2) by blast
  qed
  from all_sorted_upd(1)[of "remove_kids nm fl", OF this assms(1)] t' show ?thesis by simp
qed

lemma run_ops_sorted:
  "all_sorted t \<Longrightarrow> run_ops (h, t) ops = Some ss \<Longrightarrow> \<forall>(h', t') \<in> set ss. all_sorted t'"
proof (induction ops arbitrary: h t ss)
  case Nil
  then show ?case by simp
next
  case (Cons x xs)
  from Cons.prems(2) obtain h1 t1 ss1 where s1: "apply_op (h, t) x = Some (h1, t1)"
    and r: "run_ops (h1, t1) xs = Some ss1" and ss: "ss = (h1, t1) # ss1"
    by (auto split: option.splits)
  from apply_op_sorted[OF Cons.prems(1) s1] have "all_sorted t1" .
  from Cons.IH[OF this r] this ss show ?case by auto
qed

section \<open>The claims\<close>

text \<open>
  Claim C1, as it is stated, fails on the code: within a source the order is that of the
  sibling links, which \<^verbatim>\<open>profile_add_node\<close> keeps in name order, not the order of
  insertion. \<open>z = 1\<close> and then \<open>b = 2\<close> are inserted into the section \<open>a\<close>; an iterator
  listing \<open>a\<close> yields \<open>b\<close> (at 13), then \<open>z\<close> (at 12), then the end.
\<close>

theorem merge_order_counterexample:
  "list_a_z_b =
     Some ([(OK, Written (Some 13) (Some ''b'') (Some ''2'')),
            (OK, Written (Some 12) (Some ''z'') (Some ''1'')),
            (OK, Written None None None)], None)"
  by (simp add: list_a_z_b_def list_flags_def iterate_new_def iter_defs iter_run build.simps
        numeral_eq_Suc)

text \<open>
  Claim C1, amended. A new iterator over the files \<open>fts\<close> (each with the tree under its
  root), which \<^verbatim>\<open>profile_update_file\<close> finds unchanged and of which none resolves the
  names to a section that is empty and not final (\<open>stuck\<close>), yields call after call the
  nodes of \<open>merged\<close>: file after file in the order of the list, from each file the
  qualifying children, in the order of the sibling links, of the section the names
  resolve to, and nothing from the files after one in which a section matched on the way
  is final; then the end, with the handle nulled. What follows the listed files (\<open>e\<close>)
  may be anything when the iteration does not go through all of them: it is never looked
  at. Whether a file is \<open>stuck\<close> or not, any number of calls either does not return or
  has given the first nodes of \<open>merged\<close>. In the example of the specification the two
  calls give \<open>k = 1\<close> and the end.
\<close>

theorem merge_in_source_order:
  assumes "profile_magic pr = PROF_MAGIC_PROFILE"
    and "list_section fl \<or> ns \<noteq> []"
    and "iters s i = None"
    and "\<not> final_seen fl"
    and "is_files (nodes s) (files s) (first_file pr) fts e"
    and "\<forall>ft \<in> set fts. U (nodes s) (files s) (fst ft) = (OK, nodes s, files s)"
    and "e = None \<or> \<not> passes (path_of d ns) (map snd fts)"
    and "d = (if list_section fl then 0 else 1)"
    and "E = merged (path_of d ns) (filter_of d ns) fl (map snd fts)"
  shows "(\<not> stuck (path_of d ns) (map snd fts) \<longrightarrow>
           iterate_new (Suc (length E)) U s i pr ns fl
             = Some (map yield E @ [(OK, Written None None None)], None))
       \<and> (\<forall>n \<le> length E.
             iterate_new n U s i pr ns fl = None
           \<or> iterate_new n U s i pr ns fl = Some (take n (map yield E), Some i))"
proof -
  let ?it = "\<lparr>iter_magic = PROF_MAGIC_ITERATOR, iter_profile = pr,
               iter_flags = fl, iter_names = ns, iter_name = None,
               iter_file = first_file pr, iter_file_serial = 0,
               iter_done_idx = d, iter_node = None, iter_num = 0\<rparr>"
  let ?s0 = "s\<lparr>iters := (iters s)(i \<mapsto> ?it)\<rparr>"
  have cr: "profile_node_iterator_create s (Some i) (Some pr) (Some ns) fl
              = Some (OK, ?s0, Some i)"
    using assms(1,2,3,8) by (simp add: profile_node_iterator_create_def)
  have dl: "d \<le> length ns"
    using assms(2,8) by (cases ns) auto
  have fl: "fl\<lparr>final_seen := False\<rparr> = fl"
    using assms(4) by simp
  have inv: "iter_inv U fl ns d e ?s0 i [] fts False"
    unfolding iter_inv_def using assms(5,6,7) dl fl by simp
  have E: "E = remaining (path_of d ns) (filter_of d ns) fl [] fts False"
    using assms(9) by (simp add: remaining_def)
  have run: "iterate_new n U s i pr ns fl
               = map_option (\<lambda>(xs, s', ip'). (xs, ip')) (iterate n U ?s0 (Some i))" for n
    unfolding iterate_new_def cr by simp
  have a: "iterate_new (Suc (length E)) U s i pr ns fl
             = Some (map yield E @ [(OK, Written None None None)], None)"
    if "\<not> stuck (path_of d ns) (map snd fts)"
  proof -
    from that have "False \<or> \<not> stuck (path_of d ns) (map snd fts)" by simp
    from iterate_complete[OF inv this E] obtain s' where
      "iterate (Suc (length E)) U ?s0 (Some i)
         = Some (map yield E @ [(OK, Written None None None)], s', None)" by blast
    then show ?thesis unfolding run by simp
  qed
  have b: "iterate_new n U s i pr ns fl = None
           \<or> iterate_new n U s i pr ns fl = Some (take n (map yield E), Some i)"
    if "n \<le> length E" for n
    using iterate_prefix[OF inv E that] unfolding run by auto
  show ?thesis using a b by blast
qed

theorem merge_in_source_order_witness:
  "iterate_new 2 no_reload final_state 100 a_profile [''a'', ''k''] no_flags
     = Some ([(OK, Written (Some 12) (Some ''k'') (Some ''1'')), (OK, Written None None None)],
             None)"
proof -
  have pr: "profile_magic a_profile = PROF_MAGIC_PROFILE" "iters final_state 100 = None"
    "\<not> final_seen no_flags" "\<not> list_section no_flags"
    by (simp_all add: a_profile_def final_state_def no_flags_def)
  have t1: "is_tree final_nodes t_s1"
    by (simp add: is_tree_def t_s1_def final_nodes_def lone_def)
  have t2: "is_tree final_nodes t_s2"
    by (simp add: is_tree_def t_s2_def final_nodes_def lone_def)
  have "t_addr t_s1 = 10" "t_addr t_s2 = 20"
    by (simp_all add: t_s1_def t_s2_def)
  then have f: "is_files (nodes final_state) (files final_state) (first_file a_profile)
                  [(1, t_s1), (2, t_s2)] None"
    using t1 t2 by (simp add: final_state_def two_files_def a_profile_def)
  have u: "\<forall>ft \<in> set [(1, t_s1), (2, t_s2)].
             no_reload (nodes final_state) (files final_state) (fst ft)
               = (OK, nodes final_state, files final_state)"
    by (simp add: no_reload_def)
  have p: "path_of (Suc 0) [''a'', ''k''] = [''a'']"
    "filter_of (Suc 0) [''a'', ''k''] = Some ''k''"
    by (simp_all add: path_of_def filter_of_def)
  have r1: "resolve_path [''a''] t_s1
              = (Some (Tree 11 ''a'' None True [Tree 12 ''k'' (Some ''1'') False []]), True)"
    by (simp add: t_s1_def matches_def)
  have E: "[Tree 12 ''k'' (Some ''1'') False []]
              = merged (path_of 1 [''a'', ''k'']) (filter_of 1 [''a'', ''k'']) no_flags
                  (map snd [(1, t_s1), (2, t_s2)])"
    by (simp add: p r1 qualifies_def no_flags_def del: resolve_path.simps)
  have ns: "\<not> stuck (path_of 1 [''a'', ''k'']) (map snd [(1, t_s1), (2, t_s2)])"
    by (simp add: p r1 del: resolve_path.simps)
  from merge_in_source_order[of a_profile no_flags "[''a'', ''k'']" final_state 100
      "[(1, t_s1), (2, t_s2)]" None no_reload 1 "[Tree 12 ''k'' (Some ''1'') False []]",
      OF _ _ _ _ f u _ _ E] pr ns
  show ?thesis by (simp add: yield_def numeral_2_eq_2)
qed

text \<open>
  Claim C2, as it is stated, fails both ways. A section whose only child named \<open>n\<close> is
  a subsection has one child of that name, and removing the relations \<open>n\<close> fails with
  NotFound; a section whose only child named \<open>n\<close> is a relation has no subsection \<open>n\<close>,
  and removing the subsections \<open>n\<close> returns success (and removes nothing).
\<close>

theorem remove_not_found_counterexample:
  "remove_children h_sec 0 ''n'' False = Some (PROF_NO_RELATION, Some [1])
   \<and> remove_children h_rel 0 ''n'' True = Some (OK, Some [1])"
  by (simp add: ex_defs remove_children_def profile_remove_node_def next_match.simps
        remove_loop.simps poke_def children_def chain_addrs.simps)

text \<open>
  Claim C2, amended. For every section of a tree and every name, removing the relations
  of that name (\<^verbatim>\<open>profile_remove_node\<close> with a zero section flag) fails with NotFound
  (\<^verbatim>\<open>PROF_NO_RELATION\<close>), leaving the tree as it is, exactly when no direct child of the
  section is a relation of that name: the search tests the name and the presence of a
  value, so subsections of the same name do not count. Otherwise it returns success.
\<close>

theorem remove_relation_not_found:
  assumes "is_tree h t" and "distinct (addrs t)"
    and "Tree sec snm sv f ks \<in> set (subtrees t)"
  shows "if (\<exists>k \<in> set ks. t_name k = nm \<and> t_value k \<noteq> None)
         then (\<exists>h'. profile_remove_node h sec nm False = Some (OK, h'))
         else profile_remove_node h sec nm False = Some (PROF_NO_RELATION, h)"
proof -
  from assms(1) obtain par lvl prv nxt where n: "is_node h par lvl prv nxt t"
    by (blast dest: is_tree_is_node)
  from subtree_node(1)[OF n assms(3)] obtain par0 lvl0 prv0 nxt0
    where n0: "is_node h par0 lvl0 prv0 nxt0 (Tree sec snm sv f ks)"
    by blast
  have d0: "distinct (addrs (Tree sec snm sv f ks))"
    using subtree_distinct(1)[OF assms(2,3)] .
  have "list_ex (matches (Some nm) True) ks \<longleftrightarrow> (\<exists>k \<in> set ks. t_name k = nm \<and> t_value k \<noteq> None)"
    by (auto simp: list_ex_iff matches_def)
  with remove_local[OF n0 d0, of nm False] show ?thesis by (auto split: if_splits)
qed

theorem remove_relation_not_found_witness:
  "is_tree h_sec_rel (Tree 0 ''root'' None False [Tree 1 ''n'' None False [], Tree 2 ''n'' (Some ''v'') False []])
   \<and> (\<exists>h'. profile_remove_node h_sec_rel 0 ''n'' False = Some (OK, h'))
   \<and> is_tree h_sec (Tree 0 ''root'' None False [Tree 1 ''n'' None False []])
   \<and> profile_remove_node h_sec 0 ''n'' False = Some (PROF_NO_RELATION, h_sec)"
proof -
  let ?t1 = "Tree 0 ''root'' None False [Tree 1 ''n'' None False [], Tree 2 ''n'' (Some ''v'') False []]"
  let ?t2 = "Tree 0 ''root'' None False [Tree 1 ''n'' None False []]"
  have a: "is_tree h_sec_rel ?t1" "distinct (addrs ?t1)" "?t1 \<in> set (subtrees ?t1)"
    by (simp_all add: ex_defs is_tree_def)
  have b: "is_tree h_sec ?t2" "distinct (addrs ?t2)" "?t2 \<in> set (subtrees ?t2)"
    by (simp_all add: ex_defs is_tree_def)
  from remove_relation_not_found[OF a, of "''n''"] remove_relation_not_found[OF b, of "''n''"] a(1) b(1)
  show ?thesis by simp
qed

text \<open>
  Claim C3 fails on the code. Under an empty section insert the subsection \<open>n\<close> (block 1)
  and then the relation \<open>n = v\<close> (block 2), and remove the subsections named \<open>n\<close>: the
  search starts the deleting loop at the first relation of that name, so the loop never
  sees the subsection before it; the call returns success and both children are still
  there.
\<close>

theorem remove_leaves_earlier_subsection:
  "remove_section_after_relation = Some (OK, Some [1, 2])"
  by (simp add: remove_section_after_relation_def ex_defs remove_children_def profile_remove_node_def
        next_match.simps remove_loop.simps poke_def children_def chain_addrs.simps
        profile_add_node_def add_scan.simps profile_create_node_def zero_node_def)

text \<open>
  Claim C4 fails on the code. File 1 holds \<open>a = { k = 1 }\<close>, file 2 holds
  \<open>a = { k = 2, k = 3, k = 4 }\<close>. The first call yields \<open>k = 1\<close> from file 1, the second
  \<open>k = 2\<close> from file 2. File 2 is then reloaded with the same content. The third call
  skips \<^verbatim>\<open>iter->num\<close> = 2 matches in file 2, the count of both files, and yields \<open>k = 4\<close>:
  \<open>k = 3\<close> is lost. One entry had been yielded from file 2.
\<close>

theorem stale_skip_counts_other_sources:
  "reload_after_two =
     Some [(OK, Written (Some 12) (Some ''k'') (Some ''1'')),
           (OK, Written (Some 22) (Some ''k'') (Some ''2'')),
           (OK, Written (Some 24) (Some ''k'') (Some ''4'')),
           (OK, Written None None None)]"
  by (simp add: iter_defs iter_run numeral_eq_Suc)

text \<open>
  Claim C5. The children of a section are in name order: \<^verbatim>\<open>profile_add_node\<close> is the only
  code that links a child into a section, and it keeps them so (\<open>run_ops_sorted\<close>). For
  every section of such a tree that satisfies the structural invariants, and every name,
  a successful insert places the new child immediately after the last child whose name
  equals or precedes the new name (\<open>after_last_le\<close>), which is immediately before the first
  child whose name is strictly greater: every child before the new one has a name that
  equals or precedes it, every child after it a strictly greater one. It sets the group
  level of the new child to the section's plus one and its parent to the section, and
  the children of every section are again in name order. Inserting \<open>b\<close>, \<open>a\<close>, \<open>b\<close>, \<open>c\<close>
  under an empty section yields \<open>a\<close>, \<open>b\<close>, \<open>b\<close>, \<open>c\<close> with the two \<open>b\<close> in insertion order.
\<close>

theorem add_node_position:
  assumes "is_tree h t" and "distinct (addrs t)" and "all_sorted t"
    and "Tree sec snm sv f ks \<in> set (subtrees t)"
    and "profile_add_node h m sec nm v = Some (OK, h', r)"
  shows "(\<exists>new sn n. r = Some new \<and> h sec = Some sn \<and> h' new = Some n
            \<and> children h' sec = Some (map t_addr (after_last_le new nm v ks))
            \<and> after_last_le new nm v ks
                = takeWhile (name_le nm) ks @ Tree new nm v False [] # dropWhile (name_le nm) ks
            \<and> (\<forall>k \<in> set (takeWhile (name_le nm) ks). strcmp (t_name k) nm \<le> 0)
            \<and> (\<forall>k \<in> set (dropWhile (name_le nm) ks). strcmp (t_name k) nm > 0)
            \<and> group_level n = group_level sn + 1 \<and> parent n = Some sec
            \<and> name n = Some nm \<and> value n = v
            \<and> is_tree h' (upd_kids sec (insert_kid new nm v) t)
            \<and> all_sorted (upd_kids sec (insert_kid new nm v) t))
         \<and> Option.bind (add_vals h_root 0 [(1, ''b'', None), (2, ''a'', None), (3, ''b'', None),
                                            (4, ''c'', None)]) (\<lambda>h. children h 0)
             = Some [2, 1, 3, 4]"
proof -
  let ?pre = "takeWhile (name_le nm) ks" and ?post = "dropWhile (name_le nm) ks"
  have sorted: "name_sorted ks"
    using assms(3,4) unfolding all_sorted_def by force
  note ad = assms(1,2,4,5)
  from add_tree_at[OF ad] obtain new par0 lvl0 prv0 nxt0 where r: "r = Some new"
    and n0: "is_node h par0 lvl0 prv0 nxt0 (Tree sec snm None f ks)"
    and n0': "is_node h' par0 lvl0 prv0 nxt0 (Tree sec snm None f (insert_kid new nm v ks))"
    by blast
  from n0 obtain sn where sn: "h sec = Some sn" "group_level sn = lvl0" by simp
  have eq: "after_last_le new nm v ks = ?pre @ Tree new nm v False [] # ?post"
    using sorted_insert_kid[OF sorted, of new nm v] by (simp add: insert_kid_def)
  have ch: "children h' sec = Some (map t_addr (after_last_le new nm v ks))"
    using children_node[OF n0'] sorted_insert_kid[OF sorted, of new nm v] by simp
  have "is_sibs h' sec (lvl0 + 1) None (?pre @ Tree new nm v False [] # ?post) None"
    using n0' by (simp add: insert_kid_def)
  then have "is_node h' (Some sec) (lvl0 + 1) (last_or ?pre None) (first_or ?post None)
               (Tree new nm v False [])"
    unfolding is_sibs_append by simp
  then obtain n where n: "h' new = Some n" "group_level n = lvl0 + 1" "parent n = Some sec"
    "name n = Some nm" "value n = v" by simp
  have pre: "\<forall>k \<in> set ?pre. strcmp (t_name k) nm \<le> 0"
    by (auto dest!: set_takeWhileD simp: name_le_def)
  have post: "\<forall>k \<in> set ?post. strcmp (t_name k) nm > 0"
    using sorted_dropWhile_le[OF sorted, of nm] by (auto simp: name_le_def)
  from add_tree[OF assms(1,2) _ assms(5)] assms(4) r
  have tr: "is_tree h' (upd_kids sec (insert_kid new nm v) t)"
    using subtrees_addrs(1)[OF assms(4)] by auto
  have "sec \<in> set (addrs t)"
    using subtrees_addrs(1)[OF assms(4)] by (auto simp: addrs_def)
  then have "apply_op (h, t) (Add sec m nm v) = Some (h', upd_kids sec (insert_kid new nm v) t)"
    using assms(5) r by simp
  from apply_op_sorted[OF assms(3) this]
  have so: "all_sorted (upd_kids sec (insert_kid new nm v) t)" .
  have ex: "Option.bind (add_vals h_root 0 [(1, ''b'', None), (2, ''a'', None), (3, ''b'', None),
                                            (4, ''c'', None)]) (\<lambda>h. children h 0)
             = Some [2, 1, 3, 4]"
    by (simp add: ex_defs profile_add_node_def add_scan.simps profile_create_node_def
          poke_def zero_node_def children_def chain_addrs.simps)
  from r sn n ch eq pre post tr so ex show ?thesis by auto
qed

theorem add_node_position_witness:
  "is_tree h_ac t_ac \<and> distinct (addrs t_ac) \<and> all_sorted t_ac \<and> t_ac \<in> set (subtrees t_ac)
   \<and> (\<exists>h'. profile_add_node h_ac (mem 3) 0 ''b'' None = Some (OK, h', Some 3)
         \<and> children h' 0 = Some [1, 3, 2])"
proof -
  have a: "is_tree h_ac t_ac" "distinct (addrs t_ac)"
    "Tree 0 ''root'' None False [Tree 1 ''a'' None False [], Tree 2 ''c'' None False []] \<in> set (subtrees t_ac)"
    by (simp_all add: ex_defs is_tree_def addrs_def)
  have s: "all_sorted t_ac"
    by (simp add: t_ac_def all_sorted_def name_sorted_def)
  have "map_option fst (profile_add_node h_ac (mem 3) 0 ''b'' None) = Some OK"
    by (simp add: ex_defs profile_add_node_def add_scan.simps profile_create_node_def poke_def zero_node_def)
  then obtain h1 r1 where ok1: "profile_add_node h_ac (mem 3) 0 ''b'' None = Some (OK, h1, r1)"
    by (cases "profile_add_node h_ac (mem 3) 0 ''b'' None") auto
  have r1: "r1 = Some 3" using add_ok_mem[OF ok1] by (simp add: mem_def)
  have c1: "children h1 0 = Some [1, 3, 2]"
    using add_node_position[OF a(1,2) s a(3) ok1] r1
    by (auto simp: after_last_le_def name_le_def)
  from a s ok1 r1 c1 show ?thesis by (auto simp: t_ac_def)
qed

text \<open>
  Claim C6, as it is stated, fails in its example: in a section with the relations
  \<open>x = 1\<close>, \<open>x = 2\<close>, \<open>x = 3\<close> the third call returns \<open>x = 3\<close> with a null cursor, and
  the fourth call, given that null cursor, starts again at the first child and returns
  \<open>x = 1\<close>, not NotFound.
\<close>

theorem scanner_restarts_counterexample:
  "xs_calls 4 = Some [(OK, Some 4, Some (Some ''x'', Some ''1'')),
                      (OK, Some 6, Some (Some ''x'', Some ''2'')),
                      (OK, None, Some (Some ''x'', Some ''3'')),
                      (OK, Some 4, Some (Some ''x'', Some ''1''))]"
  by (simp add: xs_calls_def h_xs_def ex_defs numeral_eq_Suc profile_find_node_relation_def find_node_def
        next_match.simps profile_add_node_def add_scan.simps profile_create_node_def poke_def zero_node_def)

text \<open>
  Claim C6, amended. For both scanners, on a section of a tree and a cursor that is null
  or points at a child of the section: the call returns the first child at or after the
  start (the cursor, or the first child for a null cursor) that has the name (if one is
  given) and the kind, and leaves the cursor at the next such child or null; when there
  is none from the start on, it clears the cursor and returns \<^verbatim>\<open>PROF_NO_RELATION\<close> or
  \<^verbatim>\<open>PROF_NO_SECTION\<close>. So after a success with a non-null cursor, the cursor points at a
  qualifying child and the next call on the unchanged section succeeds. A null cursor
  after a success means that no further match remains; a call with it starts over.
\<close>

theorem scanner_cursor:
  assumes "is_node h par lvl prv nxt (Tree sec snm sv f (dn @ rest))"
    and "(state = None \<and> dn = []) \<or> (state = first_or rest None \<and> rest \<noteq> [])"
  shows "profile_find_node_relation h sec nmo state =
           (case filter (matches nmo True) rest of
              [] \<Rightarrow> Some (PROF_NO_RELATION, None, None)
            | c # cs \<Rightarrow> Some (OK, first_or cs None, Some (Some (t_name c), t_value c)))
       \<and> profile_find_node_subsection h sec nmo state =
           (case filter (matches nmo False) rest of
              [] \<Rightarrow> Some (PROF_NO_SECTION, None, None)
            | c # cs \<Rightarrow> Some (OK, first_or cs None, Some (Some (t_name c), t_addr c)))
       \<and> (\<forall>a out. profile_find_node_relation h sec nmo state = Some (OK, Some a, out) \<longrightarrow>
             (\<exists>k \<in> set rest. t_addr k = a \<and> matches nmo True k)
             \<and> (\<exists>st' out'. profile_find_node_relation h sec nmo (Some a) = Some (OK, st', out')))
       \<and> (\<forall>a out. profile_find_node_subsection h sec nmo state = Some (OK, Some a, out) \<longrightarrow>
             (\<exists>k \<in> set rest. t_addr k = a \<and> matches nmo False k)
             \<and> (\<exists>st' out'. profile_find_node_subsection h sec nmo (Some a) = Some (OK, st', out')))"
proof -
  note spec = find_node_out[OF assms, of nmo]
  have rel: "(\<exists>k \<in> set rest. t_addr k = a \<and> matches nmo True k)
             \<and> (\<exists>st' out'. profile_find_node_relation h sec nmo (Some a) = Some (OK, st', out'))"
    if "profile_find_node_relation h sec nmo state = Some (OK, Some a, out)" for a out
  proof -
    from that obtain p where "find_node True PROF_NO_RELATION h sec nmo state = Some (OK, Some a, p)"
      by (auto simp: profile_find_node_relation_def)
    from find_node_next[OF assms this] show ?thesis
      by (auto simp: profile_find_node_relation_def)
  qed
  have sub: "(\<exists>k \<in> set rest. t_addr k = a \<and> matches nmo False k)
             \<and> (\<exists>st' out'. profile_find_node_subsection h sec nmo (Some a) = Some (OK, st', out'))"
    if "profile_find_node_subsection h sec nmo state = Some (OK, Some a, out)" for a out
  proof -
    from that obtain p where "find_node False PROF_NO_SECTION h sec nmo state = Some (OK, Some a, p)"
      by (auto simp: profile_find_node_subsection_def)
    from find_node_next[OF assms this] show ?thesis
      by (auto simp: profile_find_node_subsection_def)
  qed
  from spec rel sub show ?thesis by blast
qed


theorem scanner_cursor_witness:
  "is_node h_x None 0 None None
     (Tree 0 ''root'' None False
        ([] @ [Tree 1 ''x'' (Some ''1'') False [], Tree 2 ''x'' None False [],
               Tree 3 ''x'' (Some ''2'') False []]))
   \<and> profile_find_node_relation h_x 0 (Some ''x'') None
        = Some (OK, Some 3, Some (Some ''x'', Some ''1''))
   \<and> profile_find_node_subsection h_x 0 (Some ''x'') None
        = Some (OK, None, Some (Some ''x'', 2))
   \<and> (\<exists>st' out'. profile_find_node_relation h_x 0 (Some ''x'') (Some 3) = Some (OK, st', out'))"
proof -
  let ?ks = "[Tree 1 ''x'' (Some ''1'') False [], Tree 2 ''x'' None False [],
               Tree 3 ''x'' (Some ''2'') False []]"
  have n: "is_node h_x None 0 None None (Tree 0 ''root'' None False ([] @ ?ks))"
    by (simp add: ex_defs)
  have st: "((None :: ptr) = None \<and> ([] :: tree list) = []) \<or> (None = first_or ?ks None \<and> ?ks \<noteq> [])"
    by simp
  from scanner_cursor[OF n st, of "Some ''x''"] n show ?thesis
    by (simp add: matches_def)
qed

text \<open>
  Claim C7. For every tree that satisfies the four structural invariants and every
  sequence of successful inserts (\<^verbatim>\<open>profile_add_node\<close>) and removes
  (\<^verbatim>\<open>profile_remove_node\<close>) on nodes of the tree, \<^verbatim>\<open>profile_verify_node\<close> on the root
  succeeds after every step.
\<close>

theorem verify_after_every_op:
  assumes "is_tree h t" and "distinct (addrs t)" and "run_ops (h, t) ops = Some ss"
  shows "\<forall>(h', t') \<in> set ss. profile_verify_node h' (t_addr t) = Some OK"
proof -
  have "profile_verify_node h' (t_addr t) = Some OK" if "(h', t') \<in> set ss" for h' t'
    using run_ops_inv[OF assms] that verify_tree[of h' t'] by auto
  then show ?thesis by auto
qed

theorem verify_after_every_op_witness:
  "is_tree h_root t_root \<and> distinct (addrs t_root)
   \<and> (\<exists>ss. run_ops (h_root, t_root)
               [Add 0 (mem 1) ''b'' (Some ''1''), Add 0 (mem 2) ''a'' None,
                Remove 0 ''b'' False] = Some ss
          \<and> length ss = 3
          \<and> (\<forall>(h', t') \<in> set ss. profile_verify_node h' (t_addr t_root) = Some OK))"
proof -
  have a: "is_tree h_root t_root" "distinct (addrs t_root)"
    by (simp_all add: ex_defs is_tree_def addrs_def)
  have "run_ops (h_root, t_root)
               [Add 0 (mem 1) ''b'' (Some ''1''), Add 0 (mem 2) ''a'' None,
                Remove 0 ''b'' False] \<noteq> None"
    by (simp add: ex_defs run_defs insert_kid_def name_le_def)
  then obtain ss where ss: "run_ops (h_root, t_root)
               [Add 0 (mem 1) ''b'' (Some ''1''), Add 0 (mem 2) ''a'' None,
                Remove 0 ''b'' False] = Some ss" by auto
  then have "length ss = 3" by (auto split: option.splits)
  with verify_after_every_op[OF a ss] a ss show ?thesis by blast
qed

text \<open>
  Claim C8, as it is stated, fails: on a node whose magic is 0,
  \<^verbatim>\<open>profile_get_node_parent\<close> returns success with the parent field,
  \<^verbatim>\<open>profile_is_node_final\<close> returns the flag, and \<^verbatim>\<open>profile_remove_node\<close> searches the
  children and returns NotFound.
\<close>

theorem magic_check_counterexample:
  "profile_get_node_parent h_dead 0 = Some (OK, Some 7)
   \<and> profile_is_node_final h_dead 0 = Some True
   \<and> profile_remove_node h_dead 0 ''n'' False = Some (PROF_NO_RELATION, h_dead)"
  by (simp add: ex_defs profile_get_node_parent_def profile_is_node_final_def
        profile_remove_node_def next_match.simps)

text \<open>
  Claim C8, amended. Verify, insert, make-final and both scanners first compare the
  magic of the node they receive with \<^verbatim>\<open>PROF_MAGIC_NODE\<close> and return \<^verbatim>\<open>PROF_MAGIC_NODE\<close>
  when it differs, whatever the other fields hold and with nothing changed; the scanners
  do the same for a non-null cursor; \<^verbatim>\<open>profile_free_node\<close> returns without freeing. The
  iterator's advance returns \<^verbatim>\<open>PROF_MAGIC_ITERATOR\<close> for a null handle or a wrong magic,
  its destroy does nothing for a wrong magic, and its creation returns
  \<^verbatim>\<open>PROF_MAGIC_PROFILE\<close> for a profile with a wrong magic. \<^verbatim>\<open>profile_is_node_final\<close>
  returns a truth value, not a status, and reads the flag without a check.
\<close>

theorem magic_checked_first:
  "(h node = Some n \<and> magic n \<noteq> PROF_MAGIC_NODE \<longrightarrow>
      profile_verify_node h node = Some PROF_MAGIC_NODE
      \<and> profile_add_node h m node nm v = Some (PROF_MAGIC_NODE, h, None)
      \<and> profile_make_node_final h node = Some (PROF_MAGIC_NODE, h)
      \<and> profile_find_node_relation h node nmo state = Some (PROF_MAGIC_NODE, state, None)
      \<and> profile_find_node_subsection h node nmo state = Some (PROF_MAGIC_NODE, state, None)
      \<and> profile_free_node h node = Some h
      \<and> profile_is_node_final h node = Some (final n))
   \<and> (h node = Some n \<and> magic n \<noteq> PROF_MAGIC_NODE \<and> h sec = Some sn \<and> magic sn = PROF_MAGIC_NODE \<longrightarrow>
      profile_find_node_relation h sec nmo (Some node) = Some (PROF_MAGIC_NODE, Some node, None)
      \<and> profile_find_node_subsection h sec nmo (Some node) = Some (PROF_MAGIC_NODE, Some node, None))
   \<and> profile_node_iterator U s None = Some (PROF_MAGIC_ITERATOR, s, None, Untouched)
   \<and> (iters s i = Some it \<and> iter_magic it \<noteq> PROF_MAGIC_ITERATOR \<longrightarrow>
      profile_node_iterator U s (Some i) = Some (PROF_MAGIC_ITERATOR, s, Some i, Untouched)
      \<and> profile_node_iterator_free s (Some (Some i)) = Some (s, Some (Some i)))
   \<and> (profile_magic pr \<noteq> PROF_MAGIC_PROFILE \<longrightarrow>
      profile_node_iterator_create s mm (Some pr) names flags = Some (PROF_MAGIC_PROFILE, s, None))"
  by (auto simp: profile_verify_node_def verify_walk.simps profile_add_node_def
        profile_make_node_final_def profile_find_node_relation_def profile_find_node_subsection_def
        find_node_def profile_free_node_def free_walk.simps profile_is_node_final_def
        profile_node_iterator_def profile_node_iterator_free_def profile_node_iterator_create_def)

theorem magic_checked_first_witness:
  "h_dead 0 = Some ((lone ''x'' None)\<lparr>magic := OK, parent := Some 7, final := True\<rparr>)
   \<and> magic ((lone ''x'' None)\<lparr>magic := OK, parent := Some 7, final := True\<rparr>) \<noteq> PROF_MAGIC_NODE
   \<and> profile_verify_node h_dead 0 = Some PROF_MAGIC_NODE
   \<and> profile_add_node h_dead (mem 1) 0 ''k'' None = Some (PROF_MAGIC_NODE, h_dead, None)
   \<and> profile_find_node_relation h_dead 0 None None = Some (PROF_MAGIC_NODE, None, None)
   \<and> (h_dead(1 \<mapsto> lone ''s'' None)) 1 = Some (lone ''s'' None)
   \<and> magic (lone ''s'' None) = PROF_MAGIC_NODE
   \<and> profile_find_node_relation (h_dead(1 \<mapsto> lone ''s'' None)) 1 None (Some 0)
        = Some (PROF_MAGIC_NODE, Some 0, None)
   \<and> iter_magic ((it_example None None)\<lparr>iter_magic := OK\<rparr>) \<noteq> PROF_MAGIC_ITERATOR
   \<and> profile_node_iterator no_reload
        ((s_example None None)\<lparr>iters := Map.empty(100 \<mapsto> (it_example None None)\<lparr>iter_magic := OK\<rparr>)\<rparr>)
        (Some 100)
       = Some (PROF_MAGIC_ITERATOR,
            (s_example None None)\<lparr>iters := Map.empty(100 \<mapsto> (it_example None None)\<lparr>iter_magic := OK\<rparr>)\<rparr>,
            Some 100, Untouched)
   \<and> profile_magic (a_profile\<lparr>profile_magic := OK\<rparr>) \<noteq> PROF_MAGIC_PROFILE
   \<and> profile_node_iterator_create (s_example None None) (Some 101)
        (Some (a_profile\<lparr>profile_magic := OK\<rparr>)) (Some [''a'']) no_flags
       = Some (PROF_MAGIC_PROFILE, s_example None None, None)"
  using magic_checked_first[where h = h_dead and node = 0
        and n = "(lone ''x'' None)\<lparr>magic := OK, parent := Some 7, final := True\<rparr>"
        and m = "mem 1" and nm = "''k''" and v = None and nmo = None and state = None]
    magic_checked_first[where h = "h_dead(1 \<mapsto> lone ''s'' None)" and node = 0
        and n = "(lone ''x'' None)\<lparr>magic := OK, parent := Some 7, final := True\<rparr>"
        and sec = 1 and sn = "lone ''s'' None" and nmo = None
        and s = "(s_example None None)\<lparr>iters := Map.empty(100 \<mapsto> (it_example None None)\<lparr>iter_magic := OK\<rparr>)\<rparr>"
        and i = 100 and it = "(it_example None None)\<lparr>iter_magic := OK\<rparr>" and U = no_reload]
    magic_checked_first[where pr = "a_profile\<lparr>profile_magic := OK\<rparr>" and s = "s_example None None"
        and mm = "Some 101" and names = "Some [''a'']" and flags = no_flags]
  by (simp add: ex_defs it_example_def a_profile_def)

text \<open>
  Claim C9. When the iterator is exhausted (its node is null and no file remains or a
  final section was seen), the call returns the end (status 0, all out parameters null),
  frees the iterator and nulls the handle; any call that returns a null node is this
  end. A further call on the nulled handle returns \<^verbatim>\<open>PROF_MAGIC_ITERATOR\<close>. Destroying
  (\<^verbatim>\<open>profile_node_iterator_free\<close>) a null handle or a null pointer to a handle does
  nothing, and destroying a live iterator frees it and nulls the handle, so a second
  destroy does nothing.
\<close>

theorem iterator_exhaustion:
  "(iters s i = Some it \<and> iter_magic it = PROF_MAGIC_ITERATOR \<and> iter_node it = None
      \<and> (iter_file it = None \<or> final_seen (iter_flags it)) \<longrightarrow>
      get_new_file U s i k
        = Some (OK, s\<lparr>iters := (iters s)(i := None)\<rparr>, None, Written None None None)
      \<and> profile_node_iterator U s (Some i)
        = Some (OK, s\<lparr>iters := (iters s)(i := None)\<rparr>, None, Written None None None))
   \<and> (iters s i = Some it \<and> iter_magic it = PROF_MAGIC_ITERATOR
      \<and> profile_node_iterator U s (Some i) = Some (r, s', ip, Written None nm v) \<longrightarrow>
      r = OK \<and> nm = None \<and> v = None \<and> ip = None \<and> iters s' i = None)
   \<and> profile_node_iterator U s None = Some (PROF_MAGIC_ITERATOR, s, None, Untouched)
   \<and> profile_node_iterator_free s None = Some (s, None)
   \<and> profile_node_iterator_free s (Some None) = Some (s, Some None)
   \<and> (iters s i = Some it \<and> iter_magic it = PROF_MAGIC_ITERATOR \<longrightarrow>
      profile_node_iterator_free s (Some (Some i))
        = Some (s\<lparr>iters := (iters s)(i := None)\<rparr>, Some None))"
proof -
  have a: "get_new_file U s i k
        = Some (OK, s\<lparr>iters := (iters s)(i := None)\<rparr>, None, Written None None None)"
    if "iters s i = Some it" "iter_magic it = PROF_MAGIC_ITERATOR" "iter_node it = None"
       "iter_file it = None \<or> final_seen (iter_flags it)" for k
    using that by (subst get_new_file.simps) (auto simp: profile_node_iterator_free_def)
  have b: "r = OK \<and> nm = None \<and> v = None \<and> ip = None \<and> iters s' i = None"
    if "iters s i = Some it" "iter_magic it = PROF_MAGIC_ITERATOR"
       "profile_node_iterator U s (Some i) = Some (r, s', ip, Written None nm v)"
    using iterator_call_result[OF that(3,1,2)] by (auto simp: call_result_ok_def)
  show ?thesis
    using a b by (auto simp: profile_node_iterator_def profile_node_iterator_free_def)
qed


theorem iterator_exhaustion_witness:
  "iters ((s_example None None)\<lparr>iters := Map.empty(100 \<mapsto> (it_example None None)\<lparr>iter_file := None\<rparr>)\<rparr>) 100
     = Some ((it_example None None)\<lparr>iter_file := None\<rparr>)
   \<and> iter_magic ((it_example None None)\<lparr>iter_file := None\<rparr>) = PROF_MAGIC_ITERATOR
   \<and> iter_node ((it_example None None)\<lparr>iter_file := None\<rparr>) = None
   \<and> iter_file ((it_example None None)\<lparr>iter_file := None\<rparr>) = None
   \<and> profile_node_iterator no_reload
        ((s_example None None)\<lparr>iters := Map.empty(100 \<mapsto> (it_example None None)\<lparr>iter_file := None\<rparr>)\<rparr>)
        (Some 100)
       = Some (OK, (s_example None None)\<lparr>iters := Map.empty\<rparr>, None, Written None None None)
   \<and> profile_node_iterator_free
        ((s_example None None)\<lparr>iters := Map.empty(100 \<mapsto> (it_example None None)\<lparr>iter_file := None\<rparr>)\<rparr>)
        (Some (Some 100))
       = Some ((s_example None None)\<lparr>iters := Map.empty\<rparr>, Some None)"
  using iterator_exhaustion[of
      "(s_example None None)\<lparr>iters := Map.empty(100 \<mapsto> (it_example None None)\<lparr>iter_file := None\<rparr>)\<rparr>"
      100 "(it_example None None)\<lparr>iter_file := None\<rparr>" no_reload 0 OK
      "(s_example None None)\<lparr>iters := Map.empty\<rparr>" None None None]
  by (simp add: s_example_def it_example_def)

text \<open>
  Claim C10, as it is stated, fails on the code: \<^verbatim>\<open>num\<close> is an \<^verbatim>\<open>int\<close>, and \<^verbatim>\<open>iter->num++\<close> at
  \<^verbatim>\<open>INT_MAX\<close> leaves a negative number. The iterator stands at \<open>j = 0\<close> of \<open>a = { j = 0, j = 1 }\<close>
  with \<^verbatim>\<open>num\<close> = 2147483647. The call yields \<open>j = 0\<close> and leaves \<^verbatim>\<open>num\<close> = -2147483648, less than
  before; after a reload of the file the next call skips nothing and yields \<open>j = 0\<close>
  again.
\<close>

theorem num_wraps_counterexample:
  "wrap_then_reload =
     Some ((OK, Written (Some 12) (Some ''j'') (Some ''0'')), Some (- 2147483648),
           (OK, Written (Some 12) (Some ''j'') (Some ''0'')))"
  by (simp add: wrap_then_reload_def s_aj_def it_aj_def h_a_jj_def iter_defs iter_run)

text \<open>
  Claim C10, amended. \<^verbatim>\<open>num\<close> is increased by one each time the search loop over the
  siblings has ended, whether it found a node or not, and is changed nowhere else: a
  call with the searches counted is the call itself; a call that leaves the iterator live
  has ended \<open>n \<ge> 1\<close> searches and has added \<open>n\<close> to \<^verbatim>\<open>num\<close>; and at any moment of the life of
  an iterator, whatever else has happened to the files and the trees, \<^verbatim>\<open>num\<close> is the number
  \<open>m\<close> of searches ended since it was created, as a 32-bit number: exactly \<open>m\<close> as long as
  \<open>m < 2^31\<close>. It is not reset when the iterator moves to another file, and when the file
  of the current node has been reloaded the number of matches to skip is this \<^verbatim>\<open>num\<close>. In
  the example the first call goes through two files without a match and yields \<open>k = 1\<close>
  from the third: three searches, \<^verbatim>\<open>num\<close> = 3; after a reload of that file the next call
  skips three matches there and returns the end.
\<close>

theorem num_counts_scans:
  "map_option fst (profile_node_iterator_scans U s ip) = profile_node_iterator U s ip
   \<and> (iters s i = Some it \<and> iter_magic it = PROF_MAGIC_ITERATOR
        \<and> profile_node_iterator_scans U s (Some i) = Some ((r, s', Some j, out), n) \<longrightarrow>
      1 \<le> n \<and> (\<exists>it'. iters s' i = Some it' \<and> iter_num it' = iter_num it + of_nat n))
   \<and> (profile_node_iterator_create s (Some i) (Some pr) (Some ns) fl0 = Some (OK, s0, ip0)
        \<and> lifetime U i s0 m s1 \<longrightarrow>
      (\<exists>it1. iters s1 i = Some it1 \<and> iter_num it1 = of_nat m
         \<and> (m < 2 ^ 31 \<longrightarrow> sint (iter_num it1) = int m)
         \<and> (\<forall>a f fl. iter_node it1 = Some a \<and> iter_file it1 = Some f \<and> files s1 f = Some fl
               \<and> upd_serial fl \<noteq> iter_file_serial it1 \<longrightarrow>
             profile_node_iterator U s1 (Some i)
               = get_new_file U
                   (set_iter s1 i (it1\<lparr>iter_flags := (iter_flags it1)\<lparr>final_seen := False\<rparr>,
                                       iter_node := None\<rparr>))
                   i (of_nat m))))
   \<and> fall_through_scans = Some 3
   \<and> fall_through_then_reload =
       Some ((OK, Written (Some 32) (Some ''k'') (Some ''1'')), Some 3,
             (OK, Written None None None))"
proof -
  have a: "1 \<le> n \<and> (\<exists>it'. iters s' i = Some it' \<and> iter_num it' = iter_num it + of_nat n)"
    if "iters s i = Some it" "iter_magic it = PROF_MAGIC_ITERATOR"
       "profile_node_iterator_scans U s (Some i) = Some ((r, s', Some j, out), n)"
    using iterator_scans_counted[OF that(3,1,2)] that(1) by (auto simp: counted_def)
  have b: "\<exists>it1. iters s1 i = Some it1 \<and> iter_num it1 = of_nat m
         \<and> (m < 2 ^ 31 \<longrightarrow> sint (iter_num it1) = int m)
         \<and> (\<forall>a f fl. iter_node it1 = Some a \<and> iter_file it1 = Some f \<and> files s1 f = Some fl
               \<and> upd_serial fl \<noteq> iter_file_serial it1 \<longrightarrow>
             profile_node_iterator U s1 (Some i)
               = get_new_file U
                   (set_iter s1 i (it1\<lparr>iter_flags := (iter_flags it1)\<lparr>final_seen := False\<rparr>,
                                       iter_node := None\<rparr>))
                   i (of_nat m))"
    if cr: "profile_node_iterator_create s (Some i) (Some pr) (Some ns) fl0 = Some (OK, s0, ip0)"
      and lt: "lifetime U i s0 m s1"
  proof -
    from cr obtain it0 where "iters s0 i = Some it0" "iter_magic it0 = PROF_MAGIC_ITERATOR"
      "iter_num it0 = 0"
      by (auto simp: profile_node_iterator_create_def split: if_splits)
    from lifetime_num[OF lt this] obtain it1 where it1: "iters s1 i = Some it1"
      "iter_magic it1 = PROF_MAGIC_ITERATOR" "iter_num it1 = of_nat m" by blast
    have "sint (iter_num it1) = int m" if "m < 2 ^ 31"
      using sint_small[OF that] it1(3) by simp
    moreover have "profile_node_iterator U s1 (Some i)
               = get_new_file U
                   (set_iter s1 i (it1\<lparr>iter_flags := (iter_flags it1)\<lparr>final_seen := False\<rparr>,
                                       iter_node := None\<rparr>))
                   i (of_nat m)"
      if "iter_node it1 = Some a" "iter_file it1 = Some f" "files s1 f = Some fl"
         "upd_serial fl \<noteq> iter_file_serial it1" for a f fl
      using that it1 by (simp add: profile_node_iterator_def)
    ultimately show ?thesis using it1 by blast
  qed
  have c: "fall_through_scans = Some 3"
    by (simp add: fall_through_scans_def profile_node_iterator_scans_def
          get_new_file_scans.simps iter_defs iter_run numeral_eq_Suc)
  have d: "fall_through_then_reload =
       Some ((OK, Written (Some 32) (Some ''k'') (Some ''1'')), Some 3,
             (OK, Written None None None))"
    by (simp add: iter_defs iter_run numeral_eq_Suc)
  from iterator_scans_erase[of U s ip] a b c d show ?thesis by blast
qed

theorem num_counts_scans_witness:
  "profile_node_iterator_scans no_reload (s_aj None None 0) (Some 100)
     = Some ((OK, s_aj (Some ''j'') (Some 13) 1, Some 100,
              Written (Some 12) (Some ''j'') (Some ''0'')), 1)
   \<and> profile_node_iterator_create \<lparr>nodes = h_a_jj, files = one_file, iters = Map.empty\<rparr>
        (Some 100) (Some a_profile) (Some [''a'', ''j'']) no_flags
       = Some (OK, s_aj None None 0, Some 100)
   \<and> lifetime no_reload 100 (s_aj None None 0) 1 (reload (s_aj (Some ''j'') (Some 13) 1) 1)
   \<and> sint (iter_num (it_aj (Some ''j'') (Some 13) 1)) = 1
   \<and> profile_node_iterator no_reload (reload (s_aj (Some ''j'') (Some 13) 1) 1) (Some 100)
       = get_new_file no_reload
           (set_iter (reload (s_aj (Some ''j'') (Some 13) 1) 1) 100
              ((it_aj (Some ''j'') (Some 13) 1)\<lparr>iter_flags := no_flags\<lparr>final_seen := False\<rparr>,
                                                  iter_node := None\<rparr>)) 100 1"
proof -
  let ?s0 = "s_aj None None 0" and ?s1 = "s_aj (Some ''j'') (Some 13) 1"
  let ?it1 = "it_aj (Some ''j'') (Some 13) 1"
  have c1: "profile_node_iterator_scans no_reload ?s0 (Some 100)
     = Some ((OK, ?s1, Some 100, Written (Some 12) (Some ''j'') (Some ''0'')), 1)"
    by (simp add: profile_node_iterator_scans_def get_new_file_scans.simps s_aj_def it_aj_def
          h_a_jj_def iter_defs iter_run)
  have cr: "profile_node_iterator_create \<lparr>nodes = h_a_jj, files = one_file, iters = Map.empty\<rparr>
        (Some 100) (Some a_profile) (Some [''a'', ''j'']) no_flags
       = Some (OK, ?s0, Some 100)"
    by (simp add: profile_node_iterator_create_def s_aj_def it_aj_def iter_defs)
  have "lifetime no_reload 100 ?s0 (0 + 1) ?s1"
    by (rule lifetime.call[OF lifetime.created c1])
  then have "lifetime no_reload 100 ?s0 (0 + 1) (reload ?s1 1)"
    by (rule lifetime.other) (simp add: reload_def s_aj_def one_file_def)
  then have lt: "lifetime no_reload 100 ?s0 1 (reload ?s1 1)" by simp
  have r: "iters (reload ?s1 1) 100 = Some ?it1" "iter_node ?it1 = Some 13"
    "iter_file ?it1 = Some 1"
    "files (reload ?s1 1) 1 = Some \<lparr>root = Some 10, upd_serial = 1, file_next = None\<rparr>"
    "upd_serial \<lparr>root = Some 10, upd_serial = 1, file_next = None\<rparr> \<noteq> iter_file_serial ?it1"
    by (simp_all add: reload_def s_aj_def it_aj_def one_file_def)
  from num_counts_scans[where s = "\<lparr>nodes = h_a_jj, files = one_file, iters = Map.empty\<rparr>"
      and i = 100 and pr = a_profile and ns = "[''a'', ''j'']" and ?fl0.0 = no_flags
      and ?s0.0 = ?s0 and ?ip0.0 = "Some 100" and U = no_reload and m = 1
      and ?s1.0 = "reload ?s1 1"] cr lt
  obtain it1 where it1: "iters (reload ?s1 1) 100 = Some it1"
    "1 < (2 :: nat) ^ 31 \<longrightarrow> sint (iter_num it1) = int 1"
    "\<forall>a f fl. iter_node it1 = Some a \<and> iter_file it1 = Some f
         \<and> files (reload ?s1 1) f = Some fl \<and> upd_serial fl \<noteq> iter_file_serial it1 \<longrightarrow>
       profile_node_iterator no_reload (reload ?s1 1) (Some 100)
         = get_new_file no_reload
             (set_iter (reload ?s1 1) 100
                (it1\<lparr>iter_flags := (iter_flags it1)\<lparr>final_seen := False\<rparr>, iter_node := None\<rparr>))
             100 (of_nat 1)"
    by blast
  from it1(1) r(1) have e: "it1 = ?it1" by simp
  have w1: "sint (iter_num ?it1) = 1" using it1(2) unfolding e by simp
  have w2: "profile_node_iterator no_reload (reload ?s1 1) (Some 100)
       = get_new_file no_reload
           (set_iter (reload ?s1 1) 100
              (?it1\<lparr>iter_flags := no_flags\<lparr>final_seen := False\<rparr>, iter_node := None\<rparr>)) 100 1"
    using it1(3)[unfolded e, rule_format, OF conjI[OF r(2) conjI[OF r(3) conjI[OF r(4) r(5)]]]]
    by (simp add: it_aj_def)
  from c1 cr lt w1 w2 show ?thesis by blast
qed

end
